theory Spec2Isabelle
  imports Main "HOL-Library.Multiset" "HOL-Library.AList"
begin

text \<open>
  A model of the data-access layer of the risk backend: the class \<open>DataService\<close> (request
  queue with deduplication, queue processor, circuit breaker, cached query) and the class
  \<open>RedisCacheService\<close> it reads and writes through.
\<close>

section \<open>Values, errors and promises\<close>

text \<open>
  Payloads are JavaScript values (\<open>any\<close> in the source). Numbers are modelled as integers;
  the only property of a number the code depends on is whether it is zero.
\<close>

datatype jsval =
    Undefined
  | Null
  | Bool bool
  | Num int
  | Str string
  | Arr "jsval list"
  | Obj "(string \<times> jsval) list"

text \<open>JavaScript truthiness, as used by \<open>data || null\<close> and \<open>if (data)\<close>.\<close>

fun truthy :: "jsval \<Rightarrow> bool" where
  "truthy Undefined = False"
| "truthy Null = False"
| "truthy (Bool b) = b"
| "truthy (Num n) = (n \<noteq> 0)"
| "truthy (Str s) = (s \<noteq> [])"
| "truthy (Arr xs) = True"
| "truthy (Obj kvs) = True"

text \<open>
  The exceptions that travel through the data service: \<open>new Error('Request timeout')\<close> of the
  local timer, the \<open>HttpException\<close> of \<open>executeSubgraphQuery\<close> with its status, and the
  \<open>ApiException(CACHE_ERROR)\<close> of the cache service.
\<close>

datatype error =
    RequestTimeout
  | HttpException nat
  | CacheError

text \<open>The state of a \<open>requestPromise\<close> created by \<open>queueSubgraphRequest\<close>.\<close>

datatype promise_state = Pending | Fulfilled jsval | Rejected error

section \<open>The data service: state\<close>

text \<open>
  A queue item. The \<open>resolve\<close> and \<open>reject\<close> closures of the source settle the promise the item
  was created in; the model keeps the handle of that promise (its index in the promise store).
  The \<open>execute\<close> closure is \<open>() => executeSubgraphQuery(query, variables)\<close>; what it does is
  decided by the network and given to the model when the race settles.
\<close>

record request =
  req_id :: string
  promise :: nat
  priority :: int
  timestamp :: int

text \<open>
  The fields of \<open>DataService\<close>. The JavaScript Maps are association lists in insertion order
  with unique keys, the Set is a list without duplicates. Three parts are explicit that the
  source keeps in the runtime: \<open>promises\<close>, the store of the request promises;
  \<open>inflight\<close>, the requests whose \<open>Promise.race\<close> has not settled yet, each with the time of
  its dispatch; and \<open>executed\<close>, the log of the calls of \<open>request.execute()\<close>.
\<close>

record DataService =
  requestQueue :: "request list"
  pendingRequests :: "(string \<times> nat) list"
  activeRequests :: "string list"
  processedRequests :: "(string \<times> ((error + jsval) \<times> int)) list"
  isProcessingQueue :: bool
  failureCount :: nat
  lastFailureTime :: int
  promises :: "promise_state list"
  inflight :: "(request \<times> int) list"
  executed :: "string list"

definition MAX_CONCURRENT_REQUESTS :: nat where
  "MAX_CONCURRENT_REQUESTS = 3"

definition REQUEST_TIMEOUT :: int where
  "REQUEST_TIMEOUT = 250000"

definition EXPIRY_DURATION :: int where
  "EXPIRY_DURATION = 60 * 60 * 1000"

definition FAILURE_THRESHOLD :: nat where
  "FAILURE_THRESHOLD = 5"

definition RECOVERY_TIMEOUT :: int where
  "RECOVERY_TIMEOUT = 60000"

text \<open>
  \<open>executeSubgraphQuery\<close> posts the query with the option \<open>timeout: this.REQUEST_TIMEOUT\<close>:
  the time after which the transport gives up.
\<close>

definition transport_timeout :: int where
  "transport_timeout = REQUEST_TIMEOUT"

text \<open>The service as the constructor leaves it.\<close>

definition init :: DataService where
  "init = \<lparr> requestQueue = [], pendingRequests = [], activeRequests = [],
     processedRequests = [], isProcessingQueue = False, failureCount = 0,
     lastFailureTime = 0, promises = [], inflight = [], executed = [] \<rparr>"

subsection \<open>Map and Set operations\<close>

definition Map_has :: "('k \<times> 'v) list \<Rightarrow> 'k \<Rightarrow> bool" where
  "Map_has m k = (map_of m k \<noteq> None)"

definition Map_set :: "'k \<Rightarrow> 'v \<Rightarrow> ('k \<times> 'v) list \<Rightarrow> ('k \<times> 'v) list" where
  "Map_set k v m = AList.update k v m"

definition Map_delete :: "'k \<Rightarrow> ('k \<times> 'v) list \<Rightarrow> ('k \<times> 'v) list" where
  "Map_delete k m = AList.delete k m"

definition Set_add :: "'a \<Rightarrow> 'a list \<Rightarrow> 'a list" where
  "Set_add x xs = (if x \<in> set xs then xs else xs @ [x])"

definition Set_delete :: "'a \<Rightarrow> 'a list \<Rightarrow> 'a list" where
  "Set_delete x xs = removeAll x xs"

section \<open>Request ids\<close>

text \<open>
  \<open>getRequestId\<close> is \<open>`${query.replace(/\s+/g, ' ').trim()}_${JSON.stringify(variables)}`\<close>.
  Strings are byte strings here, so \<open>\s\<close> is the ASCII white space. \<open>JSON.stringify\<close> is a
  builtin of the language and is a parameter, \<open>stringify\<close>.
\<close>

definition is_space :: "char \<Rightarrow> bool" where
  "is_space c = (c \<in> set [CHR 0x09, CHR 0x0A, CHR 0x0B, CHR 0x0C, CHR 0x0D, CHR 0x20])"

function collapse_ws :: "string \<Rightarrow> string" where
  "collapse_ws [] = []"
| "collapse_ws (c # cs) =
     (if is_space c then CHR 0x20 # collapse_ws (dropWhile is_space cs)
      else c # collapse_ws cs)"
  by pat_completeness auto
termination
  by (relation "measure length") (auto simp: length_dropWhile_le less_Suc_eq_le)

definition trim :: "string \<Rightarrow> string" where
  "trim s = rev (dropWhile is_space (rev (dropWhile is_space s)))"

definition getRequestId :: "(jsval \<Rightarrow> string) \<Rightarrow> string \<Rightarrow> jsval \<Rightarrow> string" where
  "getRequestId stringify query variables =
     trim (collapse_ws query) @ ''_'' @ stringify variables"

section \<open>Circuit breaker\<close>

text \<open>
  \<open>Date.now()\<close> is the parameter \<open>now\<close> of every function that reads the clock.
  \<open>isCircuitOpen\<close> returns its answer together with the state, since it resets
  \<open>failureCount\<close> when the recovery time has passed.
\<close>

definition isCircuitOpen :: "int \<Rightarrow> DataService \<Rightarrow> bool \<times> DataService" where
  "isCircuitOpen now s =
     (if failureCount s < FAILURE_THRESHOLD then (False, s)
      else if now - lastFailureTime s > RECOVERY_TIMEOUT
           then (False, s\<lparr>failureCount := 0\<rparr>)
           else (True, s))"

definition recordFailure :: "int \<Rightarrow> DataService \<Rightarrow> DataService" where
  "recordFailure now s = s\<lparr>failureCount := failureCount s + 1, lastFailureTime := now\<rparr>"

definition recordSuccess :: "DataService \<Rightarrow> DataService" where
  "recordSuccess s = (if failureCount s > 0 then s\<lparr>failureCount := 0\<rparr> else s)"

section \<open>Queueing with deduplication\<close>

definition queueSubgraphRequest ::
  "(jsval \<Rightarrow> string) \<Rightarrow> string \<Rightarrow> jsval \<Rightarrow> int \<Rightarrow> int \<Rightarrow> DataService \<Rightarrow> nat \<times> DataService" where
  "queueSubgraphRequest stringify query variables prio now s =
     (let requestId = getRequestId stringify query variables in
      case map_of (pendingRequests s) requestId of
        Some p \<Rightarrow> (p, s)
      | None \<Rightarrow>
          (let p = length (promises s);
               queueItem = \<lparr> req_id = requestId, promise = p, priority = prio, timestamp = now \<rparr>
           in (p, s\<lparr> promises := promises s @ [Pending],
                      requestQueue := requestQueue s @ [queueItem],
                      pendingRequests := Map_set requestId p (pendingRequests s) \<rparr>)))"

section \<open>The scheduler tick\<close>

text \<open>
  The comparator of \<open>requestQueue.sort\<close>, and the sort itself: \<open>Array.prototype.sort\<close> is
  stable, so it is an insertion sort that puts an item before the first item it does not
  compare greater than.
\<close>

definition compare :: "request \<Rightarrow> request \<Rightarrow> int" where
  "compare a b =
     (if priority a \<noteq> priority b then priority b - priority a
      else timestamp a - timestamp b)"

fun insert_request :: "request \<Rightarrow> request list \<Rightarrow> request list" where
  "insert_request x [] = [x]"
| "insert_request x (y # ys) =
     (if compare x y \<le> 0 then x # y # ys else y # insert_request x ys)"

fun sort_requests :: "request list \<Rightarrow> request list" where
  "sort_requests [] = []"
| "sort_requests (x # xs) = insert_request x (sort_requests xs)"

text \<open>
  \<open>processRequestSafely\<close> starts the timer, calls \<open>request.execute()\<close> and hangs the
  handlers on the race of the two promises; the handlers run when the race settles
  (\<open>settle\<close> below). \<open>execute\<close> is the closure around the async function
  \<open>executeSubgraphQuery\<close>, which answers a rejected promise where a plain function would
  throw, so the outer \<open>catch (synchronousError)\<close> is not entered.
\<close>

definition processRequestSafely :: "int \<Rightarrow> request \<Rightarrow> DataService \<Rightarrow> DataService" where
  "processRequestSafely now r s =
     s\<lparr> executed := executed s @ [req_id r], inflight := inflight s @ [(r, now)] \<rparr>"

text \<open>The body of the \<open>for\<close> loop of \<open>processQueue\<close>.\<close>

definition dispatch :: "int \<Rightarrow> DataService \<Rightarrow> request \<Rightarrow> DataService" where
  "dispatch now s r =
     (let s1 = s\<lparr>activeRequests := Set_add (req_id r) (activeRequests s)\<rparr> in
      if Map_has (processedRequests s1) (req_id r)
      then s1\<lparr>activeRequests := Set_delete (req_id r) (activeRequests s1)\<rparr>
      else processRequestSafely now r s1)"

definition availableSlots :: "DataService \<Rightarrow> int" where
  "availableSlots s = int MAX_CONCURRENT_REQUESTS - int (length (activeRequests s))"

text \<open>\<open>requestQueue.splice(0, availableSlots)\<close> of the sorted queue.\<close>

definition requestsToProcess :: "DataService \<Rightarrow> request list" where
  "requestsToProcess s = take (nat (availableSlots s)) (sort_requests (requestQueue s))"

definition processQueue :: "int \<Rightarrow> DataService \<Rightarrow> DataService" where
  "processQueue now s =
     (if isProcessingQueue s \<or> requestQueue s = [] then s
      else case isCircuitOpen now s of
        (True, s1) \<Rightarrow> s1
      | (False, s1) \<Rightarrow>
          if availableSlots s1 \<le> 0 then s1
          else
            (let s2 = s1\<lparr> isProcessingQueue := True,
                          requestQueue := drop (nat (availableSlots s1))
                                            (sort_requests (requestQueue s1)) \<rparr>;
                 s3 = foldl (dispatch now) s2 (requestsToProcess s1)
             in s3\<lparr>isProcessingQueue := False\<rparr>))"

section \<open>Settlement of a dispatched request\<close>

text \<open>
  What \<open>request.execute()\<close> does: its promise is fulfilled or rejected after some
  milliseconds, or it never settles.
\<close>

datatype behaviour = Returns int jsval | Fails int error | Never

text \<open>
  \<open>Promise.race([executePromise, timeoutPromise])\<close>: the delay after which the race settles
  and its outcome. The timer is started before \<open>execute\<close> is called and wins a tie.
\<close>

definition race :: "behaviour \<Rightarrow> int \<times> (error + jsval)" where
  "race b =
     (case b of
        Returns d v \<Rightarrow> if d < REQUEST_TIMEOUT then (d, Inr v) else (REQUEST_TIMEOUT, Inl RequestTimeout)
      | Fails d e \<Rightarrow> if d < REQUEST_TIMEOUT then (d, Inl e) else (REQUEST_TIMEOUT, Inl RequestTimeout)
      | Never \<Rightarrow> (REQUEST_TIMEOUT, Inl RequestTimeout))"

text \<open>
  \<open>request.resolve\<close> and \<open>request.reject\<close>: a pending promise is settled, and its
  \<open>finally\<close> callback removes the id from \<open>pendingRequests\<close>; a settled promise ignores
  the call.
\<close>

definition settle_promise :: "request \<Rightarrow> promise_state \<Rightarrow> DataService \<Rightarrow> DataService" where
  "settle_promise r v s =
     (if promise r < length (promises s) \<and> promises s ! promise r = Pending
      then s\<lparr> promises := (promises s)[promise r := v],
               pendingRequests := Map_delete (req_id r) (pendingRequests s) \<rparr>
      else s)"

text \<open>
  The handlers of the race. \<open>Map.set\<close>, \<open>Set.delete\<close>, the settling of a promise and the
  two breaker methods do not throw (logging is left out), so the \<open>try\<close> bodies run to
  their end and the \<open>catch\<close> blocks around them, which settle the promise once more, are
  not entered.
\<close>

definition then_handler :: "int \<Rightarrow> request \<Rightarrow> jsval \<Rightarrow> DataService \<Rightarrow> DataService" where
  "then_handler now r result s =
     (let s1 = recordSuccess s;
          s2 = s1\<lparr>processedRequests := Map_set (req_id r) (Inr result, now) (processedRequests s1)\<rparr>
      in settle_promise r (Fulfilled result) s2)"

definition catch_handler :: "int \<Rightarrow> request \<Rightarrow> error \<Rightarrow> DataService \<Rightarrow> DataService" where
  "catch_handler now r e s =
     (let s1 = recordFailure now s;
          s2 = s1\<lparr>processedRequests := Map_set (req_id r) (Inl e, now) (processedRequests s1)\<rparr>
      in settle_promise r (Rejected e) s2)"

definition finally_handler :: "request \<Rightarrow> DataService \<Rightarrow> DataService" where
  "finally_handler r s = s\<lparr>activeRequests := Set_delete (req_id r) (activeRequests s)\<rparr>"

text \<open>
  The race of the dispatched request with id \<open>rid\<close> settles, \<open>execute\<close> behaving as \<open>b\<close>.
  The handlers read the clock at the dispatch time plus the delay of the race.
\<close>

definition settle :: "string \<Rightarrow> behaviour \<Rightarrow> DataService \<Rightarrow> DataService" where
  "settle rid b s =
     (case find (\<lambda>e. req_id (fst e) = rid) (inflight s) of
        None \<Rightarrow> s
      | Some (r, t0) \<Rightarrow>
          (let s1 = s\<lparr>inflight := remove1 (r, t0) (inflight s)\<rparr>;
               now = t0 + fst (race b)
           in case snd (race b) of
                Inr result \<Rightarrow> finally_handler r (then_handler now r result s1)
              | Inl e \<Rightarrow> finally_handler r (catch_handler now r e s1)))"

section \<open>Housekeeping and monitoring\<close>

text \<open>The cleanup loop of the constructor, run every ten minutes.\<close>

definition sweep :: "int \<Rightarrow> DataService \<Rightarrow> DataService" where
  "sweep now s =
     s\<lparr>processedRequests :=
         filter (\<lambda>entry. \<not> (now - snd (snd entry) > EXPIRY_DURATION)) (processedRequests s)\<rparr>"

record QueueStatus =
  queueSize :: nat
  activeRequestsCount :: nat
  failureCountSeen :: nat
  circuitOpen :: bool
  pendingDeduplication :: nat

text \<open>
  The fields of the object literal are evaluated in order, so \<open>failureCount\<close> is read
  before \<open>isCircuitOpen()\<close> runs. The fields \<open>activeRequests\<close> and \<open>failureCount\<close> of the
  answer are \<open>activeRequestsCount\<close> and \<open>failureCountSeen\<close> in the record above.
\<close>

definition getQueueStatus :: "int \<Rightarrow> DataService \<Rightarrow> QueueStatus \<times> DataService" where
  "getQueueStatus now s =
     (let (open, s1) = isCircuitOpen now s in
      (\<lparr> queueSize = length (requestQueue s),
         activeRequestsCount = length (activeRequests s),
         failureCountSeen = failureCount s,
         circuitOpen = open,
         pendingDeduplication = length (pendingRequests s) \<rparr>, s1))"

section \<open>Executions\<close>

text \<open>
  The event loop runs one of these at a time: a call of \<open>queueSubgraphRequest\<close>, a tick of
  the queue processor, the settlement of a race, the cleanup loop, a call of
  \<open>getQueueStatus\<close> (the breaker check in the \<open>catch\<close> of \<open>cachedQuery\<close> changes the state
  in the same way).
\<close>

datatype event =
    Call string jsval int int
  | Tick int
  | Settle string behaviour
  | Sweep int
  | Status int

fun step :: "(jsval \<Rightarrow> string) \<Rightarrow> DataService \<Rightarrow> event \<Rightarrow> DataService" where
  "step stringify s (Call query variables prio now) =
     snd (queueSubgraphRequest stringify query variables prio now s)"
| "step stringify s (Tick now) = processQueue now s"
| "step stringify s (Settle rid b) = settle rid b s"
| "step stringify s (Sweep now) = sweep now s"
| "step stringify s (Status now) = snd (getQueueStatus now s)"

definition run :: "(jsval \<Rightarrow> string) \<Rightarrow> event list \<Rightarrow> DataService \<Rightarrow> DataService" where
  "run stringify evs s = foldl (step stringify) s evs"

section \<open>The cache service and the cached query\<close>

text \<open>
  The store behind \<open>RedisCacheService\<close> is the external cache manager: a key holds a value
  until its time to live has passed, after that the store answers \<open>undefined\<close> as for a
  key never written; when the store cannot be reached its operations throw. \<open>redis_ttl\<close> is
  the configured \<open>REDIS_TTL\<close> (300 when unset). Times are milliseconds, a time to live is
  given in seconds.
\<close>

record Cache =
  entries :: "(string \<times> (jsval \<times> int)) list"
  unreachable :: bool
  redis_ttl :: int

definition cache_get :: "Cache \<Rightarrow> string \<Rightarrow> int \<Rightarrow> error + jsval" where
  "cache_get c key now =
     (if unreachable c then Inl CacheError
      else case map_of (entries c) key of
             None \<Rightarrow> Inr Undefined
           | Some (v, expires) \<Rightarrow> if now < expires then Inr v else Inr Undefined)"

definition cache_set :: "Cache \<Rightarrow> string \<Rightarrow> jsval \<Rightarrow> int \<Rightarrow> int \<Rightarrow> error + Cache" where
  "cache_set c key data ttl now =
     (if unreachable c then Inl CacheError
      else Inr (c\<lparr>entries := Map_set key (data, now + ttl * 1000) (entries c)\<rparr>))"

text \<open>\<open>RedisCacheService.get\<close>: \<open>return data || null\<close>, any exception becomes a cache error.\<close>

definition RedisCacheService_get :: "Cache \<Rightarrow> string \<Rightarrow> int \<Rightarrow> error + jsval" where
  "RedisCacheService_get c key now =
     (case cache_get c key now of
        Inl e \<Rightarrow> Inl CacheError
      | Inr data \<Rightarrow> Inr (if truthy data then data else Null))"

text \<open>\<open>RedisCacheService.set\<close>: \<open>ttlSeconds || REDIS_TTL\<close>.\<close>

definition RedisCacheService_set :: "Cache \<Rightarrow> string \<Rightarrow> jsval \<Rightarrow> int \<Rightarrow> int \<Rightarrow> error + Cache" where
  "RedisCacheService_set c key data ttlSeconds now =
     (let ttl = (if ttlSeconds \<noteq> 0 then ttlSeconds else redis_ttl c) in
      case cache_set c key data ttl now of
        Inl e \<Rightarrow> Inl CacheError
      | Inr c' \<Rightarrow> Inr c')"

text \<open>
  The \<open>catch\<close> block of \<open>cachedQuery\<close>: with the breaker open the cache is read once more,
  through the same \<open>get\<close>; a value other than \<open>null\<close> is returned, anything else rethrows
  the error that was caught.
\<close>

definition cachedQuery_catch ::
  "Cache \<Rightarrow> string \<Rightarrow> int \<Rightarrow> DataService \<Rightarrow> error \<Rightarrow> (error + jsval) \<times> DataService" where
  "cachedQuery_catch c cacheKey now s err =
     (case isCircuitOpen now s of
        (True, s1) \<Rightarrow>
          (case RedisCacheService_get c cacheKey now of
             Inr staleData \<Rightarrow> if staleData \<noteq> Null then (Inr staleData, s1) else (Inl err, s1)
           | Inl cacheError \<Rightarrow> (Inl err, s1))
      | (False, s1) \<Rightarrow> (Inl err, s1))"

text \<open>
  \<open>cachedQuery\<close>. The function waits three times (for the cache, for \<open>queryFn\<close>, for the
  cache again), and the store is shared with other writers: \<open>c1\<close> is the store at the first
  read at time \<open>now1\<close>; \<open>c2\<close> is the store at the later steps (the write of the result, the
  read in the \<open>catch\<close> block) at time \<open>now2\<close>, and \<open>s\<close> the service at that moment.
  \<open>qres\<close> is what awaiting \<open>queryFn()\<close> gives. The result comes with a flag telling whether
  \<open>queryFn\<close> was called, with the store and with the service.
\<close>

definition cachedQuery ::
  "Cache \<Rightarrow> Cache \<Rightarrow> string \<Rightarrow> (error + jsval) \<Rightarrow> int \<Rightarrow> int \<Rightarrow> int \<Rightarrow> DataService
     \<Rightarrow> (error + jsval) \<times> bool \<times> Cache \<times> DataService" where
  "cachedQuery c1 c2 cacheKey qres ttl now1 now2 s =
     (case RedisCacheService_get c1 cacheKey now1 of
        Inl e \<Rightarrow>
          (let (r, s1) = cachedQuery_catch c2 cacheKey now2 s e in (r, False, c2, s1))
      | Inr cached \<Rightarrow>
          if cached \<noteq> Null then (Inr cached, False, c1, s)
          else
            (case qres of
               Inl e \<Rightarrow>
                 (let (r, s1) = cachedQuery_catch c2 cacheKey now2 s e in (r, True, c2, s1))
             | Inr result \<Rightarrow>
                 if result \<noteq> Null \<and> result \<noteq> Undefined
                 then (case RedisCacheService_set c2 cacheKey result ttl now2 of
                         Inl e \<Rightarrow>
                           (let (r, s1) = cachedQuery_catch c2 cacheKey now2 s e
                            in (r, True, c2, s1))
                       | Inr c3 \<Rightarrow> (Inr result, True, c3, s))
                 else (Inr result, True, c2, s)))"

section \<open>Example states\<close>

text \<open>
  A service whose breaker has counted five failures, the last one at time 1990; a store whose
  entry for \<open>k\<close> expired at time 1000; a store that holds the number 0 for \<open>k\<close>.
\<close>

definition open_service :: DataService where
  "open_service = init\<lparr> failureCount := 5, lastFailureTime := 1990 \<rparr>"

definition stale_cache :: Cache where
  "stale_cache = \<lparr> entries = [(''k'', (Str ''old'', 1000))], unreachable = False, redis_ttl = 300 \<rparr>"

definition zero_cache :: Cache where
  "zero_cache = \<lparr> entries = [(''k'', (Num 0, 1000000))], unreachable = False, redis_ttl = 300 \<rparr>"

text \<open>
  The traces below carry requests with the empty variables object, whose JSON text is
  \<open>{}\<close>.
\<close>

definition stringify_empty :: "jsval \<Rightarrow> string" where
  "stringify_empty v = (case v of Obj [] \<Rightarrow> ''{}'' | _ \<Rightarrow> ''null'')"

text \<open>
  Three requests are running; \<open>A\<close> (priority 1) is queued at time 0 and \<open>B\<close>
  (priority 2) at time 1; then the request \<open>x\<close> settles and frees a slot.
\<close>

definition slot_freed :: DataService where
  "slot_freed = run stringify_empty
     [Call ''x'' (Obj []) 1 (-30), Call ''y'' (Obj []) 1 (-29), Call ''z'' (Obj []) 1 (-28),
      Tick (-20),
      Call ''A'' (Obj []) 1 0, Call ''B'' (Obj []) 2 1,
      Settle ''x_{}'' (Returns 40 (Arr []))] init"

text \<open>
  All three slots are busy; then \<open>q\<close> is called with priority 2 at time 20 and waits in
  the queue. While it waits it is called a second time, a tick finds no free slot, the
  request \<open>x\<close> settles and another request is queued; while it runs it is called a third
  time, the request \<open>y\<close> fails and a tick dispatches the other request.
\<close>

definition slots_busy :: DataService where
  "slots_busy = run stringify_empty
     [Call ''x'' (Obj []) 1 0, Call ''y'' (Obj []) 1 1, Call ''z'' (Obj []) 1 2, Tick 10] init"

definition queued_behind :: DataService where
  "queued_behind = snd (queueSubgraphRequest stringify_empty ''q'' (Obj []) 2 20 slots_busy)"

definition while_waiting :: "event list" where
  "while_waiting =
     [Call ''  q   '' (Obj []) 1 25, Tick 30, Settle ''x_{}'' (Returns 40 (Arr [])),
      Call ''w'' (Obj []) 1 60]"

definition while_running :: "event list" where
  "while_running =
     [Call ''q'' (Obj []) 3 110, Settle ''y_{}'' (Fails 110 (HttpException 500)), Tick 130]"

text \<open>
  The request \<open>q\<close> is called, dispatched and fails after 50 ms; then it is called again
  (the retry of the caller) and a tick runs.
\<close>

definition retry_state :: DataService where
  "retry_state = run stringify_empty
     [Call ''q'' (Obj []) 1 0, Tick 100, Settle ''q_{}'' (Fails 50 (HttpException 500))] init"

definition dropped_state :: DataService where
  "dropped_state = run stringify_empty [Call ''q'' (Obj []) 1 200, Tick 300] retry_state"

section \<open>Notions used in the proofs\<close>

text \<open>
  The number of queue items and running requests with a given id; the invariant that the
  processor is idle between events and that an id is queued or running at most once, and
  only while it is pending; the state of a promise that nothing queued or running can
  settle; the state after the handlers of a settled race; the invariant that the promise of
  every queued or running request is in the store; and the state of an id \<open>k\<close> that is
  pending with the promise \<open>h\<close>, still unsettled, after \<open>c\<close> executions, no request with
  another id holding \<open>h\<close>.
\<close>

definition occurrences :: "string \<Rightarrow> DataService \<Rightarrow> nat" where
  "occurrences k s =
     length (filter (\<lambda>r. req_id r = k) (requestQueue s))
     + length (filter (\<lambda>e. req_id (fst e) = k) (inflight s))"

definition wf :: "DataService \<Rightarrow> bool" where
  "wf s \<longleftrightarrow> \<not> isProcessingQueue s
     \<and> (\<forall>k. occurrences k s \<le> (if Map_has (pendingRequests s) k then 1 else 0))"

definition stuck :: "nat \<Rightarrow> DataService \<Rightarrow> bool" where
  "stuck h s \<longleftrightarrow> h < length (promises s) \<and> promises s ! h = Pending
     \<and> (\<forall>r\<in>set (requestQueue s). promise r \<noteq> h)
     \<and> (\<forall>e\<in>set (inflight s). promise (fst e) \<noteq> h)"

definition handled :: "request \<Rightarrow> int \<Rightarrow> behaviour \<Rightarrow> DataService \<Rightarrow> DataService" where
  "handled r t0 b s =
     (case snd (race b) of
        Inr result \<Rightarrow> finally_handler r (then_handler (t0 + fst (race b)) r result s)
      | Inl e \<Rightarrow> finally_handler r (catch_handler (t0 + fst (race b)) r e s))"

definition ranged :: "DataService \<Rightarrow> bool" where
  "ranged s \<longleftrightarrow> (\<forall>r\<in>set (requestQueue s). promise r < length (promises s))
     \<and> (\<forall>e\<in>set (inflight s). promise (fst e) < length (promises s))"

definition held :: "string \<Rightarrow> nat \<Rightarrow> nat \<Rightarrow> DataService \<Rightarrow> bool" where
  "held k h c s \<longleftrightarrow> wf s
     \<and> map_of (pendingRequests s) k = Some h
     \<and> h < length (promises s) \<and> promises s ! h = Pending
     \<and> count_list (executed s) k = c
     \<and> (\<forall>r\<in>set (requestQueue s). promise r = h \<longrightarrow> req_id r = k)
     \<and> (\<forall>e\<in>set (inflight s). promise (fst e) = h \<longrightarrow> req_id (fst e) = k)"

section \<open>Circuit breaker: properties\<close>

lemma recordFailures_count:
  "failureCount (foldl (\<lambda>s t. recordFailure t s) s ts) = failureCount s + length ts"
  by (induction ts arbitrary: s) (simp_all add: recordFailure_def)

lemma recordFailures_last:
  "ts \<noteq> [] \<Longrightarrow> lastFailureTime (foldl (\<lambda>s t. recordFailure t s) s ts) = last ts"
  by (induction ts arbitrary: s) (simp_all add: recordFailure_def)

lemma processQueue_open:
  "fst (isCircuitOpen now s) \<Longrightarrow> processQueue now s = s"
  by (auto simp: processQueue_def isCircuitOpen_def split: if_splits)

lemma recordSuccess_count: "failureCount (recordSuccess s) = 0"
  by (simp add: recordSuccess_def)

lemma isCircuitOpen_frame:
  "activeRequests (snd (isCircuitOpen now s)) = activeRequests s"
  "requestQueue (snd (isCircuitOpen now s)) = requestQueue s"
  "processedRequests (snd (isCircuitOpen now s)) = processedRequests s"
  "pendingRequests (snd (isCircuitOpen now s)) = pendingRequests s"
  "promises (snd (isCircuitOpen now s)) = promises s"
  "inflight (snd (isCircuitOpen now s)) = inflight s"
  "executed (snd (isCircuitOpen now s)) = executed s"
  "isProcessingQueue (snd (isCircuitOpen now s)) = isProcessingQueue s"
  by (simp_all add: isCircuitOpen_def)

text \<open>The tick, when it gets as far as the loop.\<close>

text \<open>
  C3. After at least \<open>FAILURE_THRESHOLD\<close> (5) recorded failures in a row, from any state of the
  breaker, \<open>isCircuitOpen\<close> answers true exactly as long as no more than
  \<open>RECOVERY_TIMEOUT\<close> (60000 ms) has passed since the last of them; when it answers false it has set
  \<open>failureCount\<close> to 0. Whenever it answers true a tick leaves the service as it is, so
  nothing is dispatched. A recorded success leaves \<open>failureCount\<close> at 0.
\<close>

theorem breaker_opens_and_recovers:
  assumes "FAILURE_THRESHOLD \<le> length ts"
  shows "(fst (isCircuitOpen now (foldl (\<lambda>s t. recordFailure t s) s ts))
            \<longleftrightarrow> now - last ts \<le> RECOVERY_TIMEOUT)
       \<and> (\<not> fst (isCircuitOpen now (foldl (\<lambda>s t. recordFailure t s) s ts))
            \<longrightarrow> failureCount (snd (isCircuitOpen now (foldl (\<lambda>s t. recordFailure t s) s ts))) = 0)
       \<and> (fst (isCircuitOpen now' y) \<longrightarrow> processQueue now' y = y)
       \<and> failureCount (recordSuccess x) = 0
       \<and> FAILURE_THRESHOLD = 5 \<and> RECOVERY_TIMEOUT = 60000"
proof -
  let ?s = "foldl (\<lambda>s t. recordFailure t s) s ts"
  from assms have ne: "ts \<noteq> []" by (auto simp: FAILURE_THRESHOLD_def)
  have c: "\<not> failureCount ?s < FAILURE_THRESHOLD"
    using assms by (simp add: recordFailures_count)
  have l: "lastFailureTime ?s = last ts" using ne by (rule recordFailures_last)
  have 1: "fst (isCircuitOpen now ?s) \<longleftrightarrow> now - last ts \<le> RECOVERY_TIMEOUT"
    using c l by (auto simp: isCircuitOpen_def)
  have 2: "\<not> fst (isCircuitOpen now ?s) \<longrightarrow> failureCount (snd (isCircuitOpen now ?s)) = 0"
    using c by (auto simp: isCircuitOpen_def)
  have 3: "fst (isCircuitOpen now' y) \<longrightarrow> processQueue now' y = y"
    using processQueue_open[of now' y] by blast
  have 4: "failureCount (recordSuccess x) = 0" by (rule recordSuccess_count)
  have 5: "FAILURE_THRESHOLD = 5" by (rule FAILURE_THRESHOLD_def)
  have 6: "RECOVERY_TIMEOUT = 60000" by (rule RECOVERY_TIMEOUT_def)
  from 1 2 3 4 5 6 show ?thesis by (intro conjI)
qed

theorem breaker_opens_and_recovers_witness:
  "FAILURE_THRESHOLD \<le> length [1, 2, 3, 4, 5 :: int]
   \<and> fst (isCircuitOpen 60005 (foldl (\<lambda>s t. recordFailure t s) init [1, 2, 3, 4, 5]))
   \<and> \<not> fst (isCircuitOpen 60006 (foldl (\<lambda>s t. recordFailure t s) init [1, 2, 3, 4, 5]))
   \<and> failureCount (snd (isCircuitOpen 60006 (foldl (\<lambda>s t. recordFailure t s) init [1, 2, 3, 4, 5]))) = 0
   \<and> processQueue 2000 open_service = open_service"
proof -
  have o: "fst (isCircuitOpen 2000 open_service)"
    by (simp add: open_service_def init_def isCircuitOpen_def FAILURE_THRESHOLD_def
        RECOVERY_TIMEOUT_def)
  have h: "FAILURE_THRESHOLD \<le> length [1, 2, 3, 4, 5 :: int]"
    by (simp add: FAILURE_THRESHOLD_def)
  note a = breaker_opens_and_recovers [OF h, of 60005 init 2000 open_service init]
  note b = breaker_opens_and_recovers [OF h, of 60006 init 2000 open_service init]
  from a have "fst (isCircuitOpen 60005 (foldl (\<lambda>s t. recordFailure t s) init [1, 2, 3, 4, 5]))
      \<longleftrightarrow> 60005 - last [1, 2, 3, 4, 5] \<le> RECOVERY_TIMEOUT" by (rule conjunct1)
  then have 1: "fst (isCircuitOpen 60005 (foldl (\<lambda>s t. recordFailure t s) init [1, 2, 3, 4, 5]))"
    by (simp add: RECOVERY_TIMEOUT_def)
  from b have "fst (isCircuitOpen 60006 (foldl (\<lambda>s t. recordFailure t s) init [1, 2, 3, 4, 5]))
      \<longleftrightarrow> 60006 - last [1, 2, 3, 4, 5] \<le> RECOVERY_TIMEOUT" by (rule conjunct1)
  then have 2: "\<not> fst (isCircuitOpen 60006 (foldl (\<lambda>s t. recordFailure t s) init [1, 2, 3, 4, 5]))"
    by (simp add: RECOVERY_TIMEOUT_def)
  from b 2 have 3: "failureCount (snd (isCircuitOpen 60006
      (foldl (\<lambda>s t. recordFailure t s) init [1, 2, 3, 4, 5]))) = 0" by blast
  from a o have 4: "processQueue 2000 open_service = open_service" by blast
  from h 1 2 3 4 show ?thesis by (intro conjI)
qed

text \<open>
  C10. \<open>getQueueStatus\<close> returns the state that \<open>isCircuitOpen\<close> leaves: when
  \<open>failureCount\<close> has reached \<open>FAILURE_THRESHOLD\<close> and more than \<open>RECOVERY_TIMEOUT\<close> has
  passed since the last failure, the call sets \<open>failureCount\<close> to 0 (and reports the breaker
  closed together with the count it read before); in every other state it changes nothing.
\<close>

theorem getQueueStatus_resets_breaker:
  "snd (getQueueStatus now s) =
     (if FAILURE_THRESHOLD \<le> failureCount s \<and> now - lastFailureTime s > RECOVERY_TIMEOUT
      then s\<lparr>failureCount := 0\<rparr> else s)
   \<and> (FAILURE_THRESHOLD \<le> failureCount s \<and> now - lastFailureTime s > RECOVERY_TIMEOUT
        \<longrightarrow> snd (getQueueStatus now s) \<noteq> s
            \<and> \<not> circuitOpen (fst (getQueueStatus now s))
            \<and> failureCountSeen (fst (getQueueStatus now s)) = failureCount s
            \<and> failureCount (snd (getQueueStatus now s)) = 0)"
proof -
  have neq: "FAILURE_THRESHOLD \<le> failureCount s \<Longrightarrow> s\<lparr>failureCount := 0\<rparr> \<noteq> s"
  proof
    assume a: "FAILURE_THRESHOLD \<le> failureCount s" and e: "s\<lparr>failureCount := 0\<rparr> = s"
    from e have "failureCount (s\<lparr>failureCount := 0\<rparr>) = failureCount s" by simp
    with a show False by (simp add: FAILURE_THRESHOLD_def)
  qed
  show ?thesis
    using neq by (auto simp: getQueueStatus_def isCircuitOpen_def Let_def)
qed

theorem getQueueStatus_resets_breaker_witness:
  "FAILURE_THRESHOLD \<le> failureCount open_service
   \<and> 70000 - lastFailureTime open_service > RECOVERY_TIMEOUT
   \<and> failureCount (snd (getQueueStatus 70000 open_service)) = 0
   \<and> snd (getQueueStatus 70000 open_service) \<noteq> open_service
   \<and> \<not> circuitOpen (fst (getQueueStatus 70000 open_service))"
  using getQueueStatus_resets_breaker [of 70000 open_service]
  by (simp add: open_service_def init_def FAILURE_THRESHOLD_def RECOVERY_TIMEOUT_def)

section \<open>The local timeout\<close>

text \<open>
  C6. The timer a dispatched execution is raced against is \<open>REQUEST_TIMEOUT\<close>, which is
  250000 milliseconds: not below 30000, and not below the timeout the request is posted
  with, which is the same constant. An execution that never answers is rejected after
  250000 ms, and one that answers after 30000 ms still wins the race.
\<close>

theorem request_timeout_value:
  "REQUEST_TIMEOUT = 250000
   \<and> \<not> REQUEST_TIMEOUT < 30000
   \<and> \<not> REQUEST_TIMEOUT < transport_timeout
   \<and> race Never = (250000, Inl RequestTimeout)
   \<and> race (Returns 30000 (Str ''late'')) = (30000, Inr (Str ''late''))"
  by (simp add: REQUEST_TIMEOUT_def transport_timeout_def race_def)

section \<open>The cached query: properties\<close>

text \<open>
  C9. When the store holds a falsy value for a key, \<open>RedisCacheService.get\<close> answers
  \<open>null\<close> and \<open>cachedQuery\<close> calls \<open>queryFn\<close>, whatever the time, the outcome of
  \<open>queryFn\<close> and the state of the service are.
\<close>

theorem falsy_cached_value_is_miss:
  assumes "map_of (entries c) key = Some (v, expires)" and "\<not> truthy v" and "\<not> unreachable c"
  shows "RedisCacheService_get c key now1 = Inr Null
       \<and> fst (snd (cachedQuery c c2 key qres ttl now1 now2 s))"
proof -
  have g: "RedisCacheService_get c key now1 = Inr Null"
    using assms by (simp add: RedisCacheService_get_def cache_get_def)
  show ?thesis
    unfolding cachedQuery_def g
    by (simp split: sum.split prod.split)
qed

theorem falsy_cached_value_is_miss_witness:
  "map_of (entries zero_cache) ''k'' = Some (Num 0, 1000000) \<and> \<not> truthy (Num 0)
   \<and> \<not> unreachable zero_cache
   \<and> RedisCacheService_get zero_cache ''k'' 5 = Inr Null
   \<and> fst (snd (cachedQuery zero_cache zero_cache ''k'' (Inr (Arr [])) 60 5 6 init))"
  using falsy_cached_value_is_miss [of zero_cache "''k''" "Num 0" 1000000 5 zero_cache "Inr (Arr [])" 60 6 init]
  by (simp add: zero_cache_def)

text \<open>
  C8, as stated, fails for a falsy value: the store holds the number 0 for \<open>k\<close>, not
  expired; the first call of \<open>cachedQuery\<close> calls \<open>queryFn\<close>, which answers 0 again and 0
  is written back; the second call, on the store the first one left, calls \<open>queryFn\<close> again.
\<close>

theorem cache_hit_counterexample:
  "cache_get zero_cache ''k'' 5 = Inr (Num 0)
   \<and> fst (snd (cachedQuery zero_cache zero_cache ''k'' (Inr (Num 0)) 60 5 6 init))
   \<and> cache_get (fst (snd (snd (cachedQuery zero_cache zero_cache ''k'' (Inr (Num 0)) 60 5 6 init)))) ''k'' 7
       = Inr (Num 0)
   \<and> fst (snd (cachedQuery
        (fst (snd (snd (cachedQuery zero_cache zero_cache ''k'' (Inr (Num 0)) 60 5 6 init))))
        (fst (snd (snd (cachedQuery zero_cache zero_cache ''k'' (Inr (Num 0)) 60 5 6 init))))
        ''k'' (Inr (Num 0)) 60 7 8 init))"
  by (simp add: zero_cache_def cachedQuery_def RedisCacheService_get_def cache_get_def
      RedisCacheService_set_def cache_set_def Map_set_def)

text \<open>
  C8, amended. When the store can be reached and holds for the key a truthy value that has
  not expired, \<open>cachedQuery\<close> returns that value without calling \<open>queryFn\<close> and leaves the
  store and the service (queue, executions) as they were; a second call on the store the
  first one returned does the same.
\<close>

theorem cache_hit_no_queryFn:
  assumes "map_of (entries c) key = Some (v, expires)" and "truthy v" and "\<not> unreachable c"
    and "now1 < expires" and "now1' < expires"
  shows "cachedQuery c c2 key qres ttl now1 now2 s = (Inr v, False, c, s)
       \<and> cachedQuery (fst (snd (snd (cachedQuery c c2 key qres ttl now1 now2 s)))) c2' key
            qres' ttl' now1' now2' s' = (Inr v, False, c, s')"
proof -
  have g: "\<And>t. t < expires \<Longrightarrow> RedisCacheService_get c key t = Inr v"
    using assms(1-3) by (simp add: RedisCacheService_get_def cache_get_def)
  have n: "v \<noteq> Null" using assms(2) by auto
  have 1: "\<And>t c2 qres ttl now2 s. t < expires \<Longrightarrow> cachedQuery c c2 key qres ttl t now2 s = (Inr v, False, c, s)"
    using n by (simp add: cachedQuery_def g)
  show ?thesis using assms(4,5) by (simp add: 1)
qed

theorem cache_hit_no_queryFn_witness:
  "map_of (entries stale_cache) ''k'' = Some (Str ''old'', 1000) \<and> truthy (Str ''old'')
   \<and> \<not> unreachable stale_cache \<and> (10::int) < 1000 \<and> (20::int) < 1000
   \<and> cachedQuery stale_cache zero_cache ''k'' (Inr (Num 7)) 60 10 11 init
       = (Inr (Str ''old''), False, stale_cache, init)
   \<and> cachedQuery
        (fst (snd (snd (cachedQuery stale_cache zero_cache ''k'' (Inr (Num 7)) 60 10 11 init))))
        zero_cache ''k'' (Inl RequestTimeout) 60 20 21 open_service
       = (Inr (Str ''old''), False, stale_cache, open_service)"
proof -
  have h: "map_of (entries stale_cache) ''k'' = Some (Str ''old'', 1000)"
    "truthy (Str ''old'')" "\<not> unreachable stale_cache" "(10::int) < 1000" "(20::int) < 1000"
    by (simp_all add: stale_cache_def)
  show ?thesis
    using h cache_hit_no_queryFn [OF h, where ?c2.0 = zero_cache and qres = "Inr (Num 7)"
        and ttl = 60 and ?now2.0 = 11 and s = init and c2' = zero_cache
        and qres' = "Inl RequestTimeout" and ttl' = 60 and now2' = 21 and s' = open_service]
    by auto
qed

text \<open>
  C4 at the failing input: the entry for \<open>k\<close> was readable until time 1000, the breaker is
  open at time 2001, \<open>queryFn\<close> fails; \<open>cachedQuery\<close> rethrows the failure, because the
  second read goes through the same \<open>get\<close>, which does not answer an expired entry.
\<close>

theorem stale_fallback_failing_input:
  "cache_get stale_cache ''k'' 999 = Inr (Str ''old'')
   \<and> fst (isCircuitOpen 2001 open_service)
   \<and> RedisCacheService_get stale_cache ''k'' 2001 = Inr Null
   \<and> cachedQuery stale_cache stale_cache ''k'' (Inl (HttpException 500)) 60 2000 2001 open_service
       = (Inl (HttpException 500), True, stale_cache, open_service)"
  by (simp add: stale_cache_def open_service_def init_def cachedQuery_def cachedQuery_catch_def
      RedisCacheService_get_def cache_get_def isCircuitOpen_def FAILURE_THRESHOLD_def
      RECOVERY_TIMEOUT_def)

text \<open>
  More generally, without another writer to the store, a failing \<open>queryFn\<close> after a miss is
  always rethrown: the fallback read finds what the first read found.
\<close>

lemma get_later_Null:
  assumes "RedisCacheService_get c key now1 = Inr Null" and "now1 \<le> now2"
  shows "RedisCacheService_get c key now2 = Inr Null"
  using assms
  by (auto simp: RedisCacheService_get_def cache_get_def split: if_splits option.splits)

lemma catch_without_value:
  assumes "RedisCacheService_get c key now = Inr Null"
  shows "fst (cachedQuery_catch c key now s e) = Inl e"
  by (simp add: cachedQuery_catch_def assms split: prod.splits bool.splits)

lemma no_stale_value_without_writer:
  assumes "RedisCacheService_get c key now1 = Inr Null" and "now1 \<le> now2"
  shows "fst (cachedQuery c c key (Inl e) ttl now1 now2 s) = Inl e"
proof -
  have "RedisCacheService_get c key now2 = Inr Null" using assms by (rule get_later_Null)
  then have "fst (cachedQuery_catch c key now2 s e) = Inl e" by (rule catch_without_value)
  then show ?thesis
    by (auto simp: cachedQuery_def assms(1) split: prod.splits)
qed

section \<open>The active set\<close>

lemma length_Set_add: "length (Set_add x xs) \<le> Suc (length xs)"
  by (simp add: Set_add_def)

lemma length_Set_delete: "length (Set_delete x xs) \<le> length xs"
  by (simp add: Set_delete_def removeAll_filter_not_eq)

lemma active_dispatch:
  "length (activeRequests (dispatch now s r)) \<le> Suc (length (activeRequests s))"
  using length_Set_add[of "req_id r" "activeRequests s"]
    length_Set_delete[of "req_id r" "Set_add (req_id r) (activeRequests s)"]
  by (simp add: dispatch_def processRequestSafely_def Let_def)

lemma active_loop:
  "length (activeRequests (foldl (dispatch now) s rs)) \<le> length (activeRequests s) + length rs"
proof (induction rs arbitrary: s)
  case Nil
  show ?case by simp
next
  case (Cons r rs)
  have "length (activeRequests (foldl (dispatch now) (dispatch now s r) rs))
          \<le> length (activeRequests (dispatch now s r)) + length rs"
    by (rule Cons.IH)
  also have "\<dots> \<le> Suc (length (activeRequests s)) + length rs"
    using active_dispatch[of now s r] by simp
  finally show ?case by simp
qed

lemma length_insert_request: "length (insert_request x xs) = Suc (length xs)"
  by (induction xs) simp_all

lemma length_sort_requests: "length (sort_requests xs) = length xs"
  by (induction xs) (simp_all add: length_insert_request)

lemma queue_loop: "requestQueue (foldl (dispatch now) s rs) = requestQueue s"
  by (induction rs arbitrary: s) (simp_all add: dispatch_def processRequestSafely_def Let_def)

lemma processQueue_runs:
  assumes "\<not> isProcessingQueue s" and "requestQueue s \<noteq> []"
    and "\<not> fst (isCircuitOpen now s)" and "0 < availableSlots s"
  shows "processQueue now s =
     (foldl (dispatch now)
        ((snd (isCircuitOpen now s))\<lparr> isProcessingQueue := True,
            requestQueue := drop (nat (availableSlots s)) (sort_requests (requestQueue s)) \<rparr>)
        (requestsToProcess s))\<lparr>isProcessingQueue := False\<rparr>"
proof -
  obtain b s1 where e: "isCircuitOpen now s = (b, s1)" by (cases "isCircuitOpen now s")
  have s1: "s1 = snd (isCircuitOpen now s)" using e by simp
  have nb: "\<not> b" using assms(3) e by simp
  have a: "availableSlots s1 = availableSlots s"
    by (simp add: availableSlots_def s1 isCircuitOpen_frame)
  have r: "requestsToProcess s1 = requestsToProcess s"
    by (simp add: requestsToProcess_def a) (simp add: s1 isCircuitOpen_frame)
  have q: "requestQueue s1 = requestQueue s" by (simp add: s1 isCircuitOpen_frame)
  have "processQueue now s =
     (foldl (dispatch now)
        (s1\<lparr> isProcessingQueue := True,
            requestQueue := drop (nat (availableSlots s)) (sort_requests (requestQueue s)) \<rparr>)
        (requestsToProcess s))\<lparr>isProcessingQueue := False\<rparr>"
    using assms(1,2,4) nb
    by (simp add: processQueue_def e a r q Let_def)
  then show ?thesis by (simp only: s1)
qed

lemma processQueue_skips:
  assumes "isProcessingQueue s \<or> requestQueue s = [] \<or> fst (isCircuitOpen now s)
             \<or> availableSlots s \<le> 0"
  shows "processQueue now s = snd (isCircuitOpen now s) \<or> processQueue now s = s"
proof -
  obtain b s1 where e: "isCircuitOpen now s = (b, s1)" by (cases "isCircuitOpen now s")
  have a: "availableSlots s1 = availableSlots s"
    using e isCircuitOpen_frame(1)[of now s] by (simp add: availableSlots_def)
  show ?thesis
  proof (cases "isProcessingQueue s \<or> requestQueue s = []")
    case True
    then show ?thesis by (simp add: processQueue_def)
  next
    case False
    with assms have "b \<or> availableSlots s \<le> 0" using e by simp
    with False show ?thesis by (auto simp: processQueue_def e a split: bool.splits)
  qed
qed

lemma processQueue_cases:
  "processQueue now s = s \<or> processQueue now s = snd (isCircuitOpen now s)
   \<or> (0 < availableSlots s \<and> processQueue now s =
     (foldl (dispatch now)
        ((snd (isCircuitOpen now s))\<lparr> isProcessingQueue := True,
            requestQueue := drop (nat (availableSlots s)) (sort_requests (requestQueue s)) \<rparr>)
        (requestsToProcess s))\<lparr>isProcessingQueue := False\<rparr>)"
  using processQueue_runs[of s now] processQueue_skips[of s now]
  by (cases "0 < availableSlots s") auto

lemma length_requestsToProcess:
  "0 < availableSlots s \<Longrightarrow>
     length (activeRequests s) + length (requestsToProcess s) \<le> MAX_CONCURRENT_REQUESTS"
  by (simp add: requestsToProcess_def availableSlots_def)

lemma active_processQueue:
  assumes "length (activeRequests s) \<le> MAX_CONCURRENT_REQUESTS"
  shows "length (activeRequests (processQueue now s)) \<le> MAX_CONCURRENT_REQUESTS"
proof -
  consider (a) "processQueue now s = s" | (b) "processQueue now s = snd (isCircuitOpen now s)"
    | (c) "0 < availableSlots s" "processQueue now s =
     (foldl (dispatch now)
        ((snd (isCircuitOpen now s))\<lparr> isProcessingQueue := True,
            requestQueue := drop (nat (availableSlots s)) (sort_requests (requestQueue s)) \<rparr>)
        (requestsToProcess s))\<lparr>isProcessingQueue := False\<rparr>"
    using processQueue_cases[of now s] by blast
  then show ?thesis
  proof cases
    case a then show ?thesis using assms by simp
  next
    case b then show ?thesis using assms by (simp add: isCircuitOpen_frame)
  next
    case c
    let ?s2 = "(snd (isCircuitOpen now s))\<lparr> isProcessingQueue := True,
            requestQueue := drop (nat (availableSlots s)) (sort_requests (requestQueue s)) \<rparr>"
    have "length (activeRequests (foldl (dispatch now) ?s2 (requestsToProcess s)))
            \<le> length (activeRequests ?s2) + length (requestsToProcess s)"
      by (rule active_loop)
    also have "\<dots> = length (activeRequests s) + length (requestsToProcess s)"
      by (simp add: isCircuitOpen_frame)
    also have "\<dots> \<le> MAX_CONCURRENT_REQUESTS"
      using c(1) by (rule length_requestsToProcess)
    finally show ?thesis by (simp add: c(2))
  qed
qed

lemma active_settle_promise: "activeRequests (settle_promise r v s) = activeRequests s"
  by (simp add: settle_promise_def)

lemma active_settle:
  "length (activeRequests (settle rid b s)) \<le> length (activeRequests s)"
  by (auto simp: settle_def finally_handler_def then_handler_def catch_handler_def Let_def
      active_settle_promise recordSuccess_def recordFailure_def length_Set_delete
      split: option.splits sum.splits prod.splits)

lemma snd_getQueueStatus: "snd (getQueueStatus now s) = snd (isCircuitOpen now s)"
  by (simp add: getQueueStatus_def split: prod.splits)

lemma active_step:
  assumes "length (activeRequests s) \<le> MAX_CONCURRENT_REQUESTS"
  shows "length (activeRequests (step stringify s ev)) \<le> MAX_CONCURRENT_REQUESTS"
proof (cases ev)
  case (Call q v p t)
  then show ?thesis using assms
    by (simp add: queueSubgraphRequest_def Let_def split: option.splits)
next
  case (Tick now)
  then show ?thesis using assms by (simp add: active_processQueue)
next
  case (Settle rid b)
  then show ?thesis using assms active_settle[of rid b s] by simp
next
  case (Sweep now)
  then show ?thesis using assms by (simp add: sweep_def)
next
  case (Status now)
  then show ?thesis using assms
    by (simp add: snd_getQueueStatus isCircuitOpen_frame)
qed

lemma active_run:
  "length (activeRequests s) \<le> MAX_CONCURRENT_REQUESTS \<Longrightarrow>
     length (activeRequests (run stringify evs s)) \<le> MAX_CONCURRENT_REQUESTS"
  unfolding run_def
  by (induction evs arbitrary: s) (simp_all add: active_step)

lemma queue_processQueue:
  "length (requestQueue s) - length (requestQueue (processQueue now s))
     \<le> MAX_CONCURRENT_REQUESTS - length (activeRequests s)"
proof -
  consider (a) "processQueue now s = s" | (b) "processQueue now s = snd (isCircuitOpen now s)"
    | (c) "0 < availableSlots s" "processQueue now s =
     (foldl (dispatch now)
        ((snd (isCircuitOpen now s))\<lparr> isProcessingQueue := True,
            requestQueue := drop (nat (availableSlots s)) (sort_requests (requestQueue s)) \<rparr>)
        (requestsToProcess s))\<lparr>isProcessingQueue := False\<rparr>"
    using processQueue_cases[of now s] by blast
  then show ?thesis
  proof cases
    case a then show ?thesis by simp
  next
    case b then show ?thesis by (simp add: isCircuitOpen_frame)
  next
    case c
    show ?thesis
      using c(1) by (simp add: c(2) queue_loop length_sort_requests availableSlots_def)
  qed
qed

lemma distinct_Set_add: "distinct xs \<Longrightarrow> distinct (Set_add x xs)"
  by (simp add: Set_add_def)

lemma distinct_Set_delete: "distinct xs \<Longrightarrow> distinct (Set_delete x xs)"
  by (simp add: Set_delete_def distinct_removeAll)

lemma distinct_dispatch:
  "distinct (activeRequests s) \<Longrightarrow> distinct (activeRequests (dispatch now s r))"
  by (simp add: dispatch_def processRequestSafely_def Let_def distinct_Set_add
      distinct_Set_delete)

lemma distinct_loop:
  "distinct (activeRequests s) \<Longrightarrow> distinct (activeRequests (foldl (dispatch now) s rs))"
  by (induction rs arbitrary: s) (simp_all add: distinct_dispatch)

lemma distinct_processQueue:
  assumes "distinct (activeRequests s)"
  shows "distinct (activeRequests (processQueue now s))"
proof -
  have "distinct (activeRequests (foldl (dispatch now)
        ((snd (isCircuitOpen now s))\<lparr> isProcessingQueue := True,
            requestQueue := drop (nat (availableSlots s)) (sort_requests (requestQueue s)) \<rparr>)
        (requestsToProcess s)))"
    using assms by (intro distinct_loop) (simp add: isCircuitOpen_frame)
  then show ?thesis
    using processQueue_cases[of now s] assms by (auto simp: isCircuitOpen_frame)
qed

lemma distinct_settle:
  "distinct (activeRequests s) \<Longrightarrow> distinct (activeRequests (settle rid b s))"
  by (auto simp: settle_def finally_handler_def then_handler_def catch_handler_def Let_def
      active_settle_promise recordSuccess_def recordFailure_def distinct_Set_delete
      split: option.splits sum.splits prod.splits)

lemma distinct_step:
  assumes "distinct (activeRequests s)"
  shows "distinct (activeRequests (step stringify s ev))"
proof (cases ev)
  case (Call q v p t)
  then show ?thesis using assms
    by (simp add: queueSubgraphRequest_def Let_def split: option.splits)
next
  case (Tick now)
  then show ?thesis using assms by (simp add: distinct_processQueue)
next
  case (Settle rid b)
  then show ?thesis using assms by (simp add: distinct_settle)
next
  case (Sweep now)
  then show ?thesis using assms by (simp add: sweep_def)
next
  case (Status now)
  then show ?thesis using assms by (simp add: snd_getQueueStatus isCircuitOpen_frame)
qed

lemma distinct_run:
  "distinct (activeRequests s) \<Longrightarrow> distinct (activeRequests (run stringify evs s))"
  unfolding run_def
  by (induction evs arbitrary: s) (simp_all add: distinct_step)

lemma active_loop_prefix:
  assumes "length (activeRequests s) \<le> MAX_CONCURRENT_REQUESTS"
    and "activeRequests x = activeRequests s"
  shows "length (activeRequests (foldl (dispatch now) x (take i (requestsToProcess s))))
           \<le> MAX_CONCURRENT_REQUESTS"
proof -
  have "length (activeRequests (foldl (dispatch now) x (take i (requestsToProcess s))))
          \<le> length (activeRequests x) + length (take i (requestsToProcess s))"
    by (rule active_loop)
  also have "\<dots> \<le> length (activeRequests s) + length (requestsToProcess s)"
    using assms(2) by simp
  also have "\<dots> \<le> MAX_CONCURRENT_REQUESTS"
  proof (cases "0 < availableSlots s")
    case True
    then show ?thesis by (rule length_requestsToProcess)
  next
    case False
    then show ?thesis using assms(1) by (simp add: requestsToProcess_def)
  qed
  finally show ?thesis .
qed

lemma active_growth_processQueue:
  "length (activeRequests (processQueue now s))
     \<le> length (activeRequests s)
        + (length (requestQueue s) - length (requestQueue (processQueue now s)))"
proof -
  consider (a) "processQueue now s = s" | (b) "processQueue now s = snd (isCircuitOpen now s)"
    | (c) "0 < availableSlots s" "processQueue now s =
     (foldl (dispatch now)
        ((snd (isCircuitOpen now s))\<lparr> isProcessingQueue := True,
            requestQueue := drop (nat (availableSlots s)) (sort_requests (requestQueue s)) \<rparr>)
        (requestsToProcess s))\<lparr>isProcessingQueue := False\<rparr>"
    using processQueue_cases[of now s] by blast
  then show ?thesis
  proof cases
    case a then show ?thesis by simp
  next
    case b then show ?thesis by (simp add: isCircuitOpen_frame)
  next
    case c
    let ?s2 = "(snd (isCircuitOpen now s))\<lparr> isProcessingQueue := True,
            requestQueue := drop (nat (availableSlots s)) (sort_requests (requestQueue s)) \<rparr>"
    have "length (activeRequests (foldl (dispatch now) ?s2 (requestsToProcess s)))
            \<le> length (activeRequests ?s2) + length (requestsToProcess s)"
      by (rule active_loop)
    moreover have "length (requestsToProcess s)
        = length (requestQueue s) - length (requestQueue (processQueue now s))"
      by (simp add: c(2) queue_loop requestsToProcess_def length_sort_requests min_def)
    ultimately show ?thesis by (simp add: c(2) isCircuitOpen_frame)
  qed
qed

text \<open>
  C5. In every state an execution reaches from the initial one, the active set holds at most
  \<open>MAX_CONCURRENT_REQUESTS\<close> (3) ids (it has no duplicates, so its length is its size). A
  tick takes at most \<open>MAX_CONCURRENT_REQUESTS\<close> minus the size of the active set entries
  from the queue, and the active set grows by no more than the number of entries taken. The
  bound also holds inside the tick, after each round of its loop: the loop starts from a
  state \<open>x\<close> with the active set of the state \<open>s\<close> the tick began in.
\<close>

theorem active_set_bounded:
  "length (activeRequests (run stringify evs init)) \<le> MAX_CONCURRENT_REQUESTS
   \<and> distinct (activeRequests (run stringify evs init))
   \<and> length (requestQueue s) - length (requestQueue (processQueue now s))
        \<le> MAX_CONCURRENT_REQUESTS - length (activeRequests s)
   \<and> length (activeRequests (processQueue now s))
        \<le> length (activeRequests s)
           + (length (requestQueue s) - length (requestQueue (processQueue now s)))
   \<and> (length (activeRequests s) \<le> MAX_CONCURRENT_REQUESTS
        \<and> activeRequests x = activeRequests s
        \<longrightarrow> length (activeRequests (foldl (dispatch now) x (take i (requestsToProcess s))))
              \<le> MAX_CONCURRENT_REQUESTS)
   \<and> MAX_CONCURRENT_REQUESTS = 3"
proof -
  have a1: "length (activeRequests (run stringify evs init)) \<le> MAX_CONCURRENT_REQUESTS"
    by (rule active_run) (simp add: init_def)
  have a2: "distinct (activeRequests (run stringify evs init))"
    by (rule distinct_run) (simp add: init_def)
  have a3: "length (requestQueue s) - length (requestQueue (processQueue now s))
        \<le> MAX_CONCURRENT_REQUESTS - length (activeRequests s)"
    by (rule queue_processQueue)
  have a4: "length (activeRequests (processQueue now s))
        \<le> length (activeRequests s)
           + (length (requestQueue s) - length (requestQueue (processQueue now s)))"
    by (rule active_growth_processQueue)
  have a5: "length (activeRequests s) \<le> MAX_CONCURRENT_REQUESTS
        \<and> activeRequests x = activeRequests s
        \<longrightarrow> length (activeRequests (foldl (dispatch now) x (take i (requestsToProcess s))))
              \<le> MAX_CONCURRENT_REQUESTS"
  proof
    assume h: "length (activeRequests s) \<le> MAX_CONCURRENT_REQUESTS
        \<and> activeRequests x = activeRequests s"
    from h have h1: "length (activeRequests s) \<le> MAX_CONCURRENT_REQUESTS" ..
    from h have h2: "activeRequests x = activeRequests s" ..
    from h1 h2 show "length (activeRequests (foldl (dispatch now) x
        (take i (requestsToProcess s)))) \<le> MAX_CONCURRENT_REQUESTS"
      by (rule active_loop_prefix)
  qed
  have a6: "MAX_CONCURRENT_REQUESTS = 3" by (rule MAX_CONCURRENT_REQUESTS_def)
  from a1 a2 a3 a4 a5 a6 show ?thesis by (intro conjI)
qed

theorem active_set_bounded_witness:
  "length (activeRequests slot_freed) \<le> MAX_CONCURRENT_REQUESTS
   \<and> length (activeRequests slot_freed) = 2
   \<and> length (activeRequests
        (foldl (dispatch 100) slot_freed (take 1 (requestsToProcess slot_freed))))
        \<le> MAX_CONCURRENT_REQUESTS
   \<and> length (activeRequests
        (foldl (dispatch 100) slot_freed (take 1 (requestsToProcess slot_freed)))) = 3
   \<and> length (activeRequests (run stringify_empty
        [Call ''a'' (Obj []) 1 0, Call ''b'' (Obj []) 1 1, Call ''c'' (Obj []) 1 2,
         Call ''d'' (Obj []) 1 3, Call ''e'' (Obj []) 1 4, Tick 100] init))
        \<le> MAX_CONCURRENT_REQUESTS
   \<and> length (activeRequests (run stringify_empty
        [Call ''a'' (Obj []) 1 0, Call ''b'' (Obj []) 1 1, Call ''c'' (Obj []) 1 2,
         Call ''d'' (Obj []) 1 3, Call ''e'' (Obj []) 1 4, Tick 100] init)) = 3
   \<and> length (requestQueue (run stringify_empty
        [Call ''a'' (Obj []) 1 0, Call ''b'' (Obj []) 1 1, Call ''c'' (Obj []) 1 2,
         Call ''d'' (Obj []) 1 3, Call ''e'' (Obj []) 1 4, Tick 100] init)) = 2"
proof -
  have e1: "length (activeRequests slot_freed) = 2" by code_simp
  have e2: "length (activeRequests
        (foldl (dispatch 100) slot_freed (take 1 (requestsToProcess slot_freed)))) = 3"
    by code_simp
  have e3: "length (activeRequests (run stringify_empty
        [Call ''a'' (Obj []) 1 0, Call ''b'' (Obj []) 1 1, Call ''c'' (Obj []) 1 2,
         Call ''d'' (Obj []) 1 3, Call ''e'' (Obj []) 1 4, Tick 100] init)) = 3"
    by code_simp
  have e4: "length (requestQueue (run stringify_empty
        [Call ''a'' (Obj []) 1 0, Call ''b'' (Obj []) 1 1, Call ''c'' (Obj []) 1 2,
         Call ''d'' (Obj []) 1 3, Call ''e'' (Obj []) 1 4, Tick 100] init)) = 2"
    by code_simp
  have h: "length (activeRequests slot_freed) \<le> MAX_CONCURRENT_REQUESTS"
    by (simp add: e1 MAX_CONCURRENT_REQUESTS_def)
  note t = active_set_bounded [of stringify_empty
        "[Call ''a'' (Obj []) 1 0, Call ''b'' (Obj []) 1 1, Call ''c'' (Obj []) 1 2,
          Call ''d'' (Obj []) 1 3, Call ''e'' (Obj []) 1 4, Tick 100]"
        slot_freed 100 slot_freed 1]
  from t have r: "length (activeRequests (run stringify_empty
        [Call ''a'' (Obj []) 1 0, Call ''b'' (Obj []) 1 1, Call ''c'' (Obj []) 1 2,
         Call ''d'' (Obj []) 1 3, Call ''e'' (Obj []) 1 4, Tick 100] init))
        \<le> MAX_CONCURRENT_REQUESTS" by (rule conjunct1)
  from t h have l: "length (activeRequests
        (foldl (dispatch 100) slot_freed (take 1 (requestsToProcess slot_freed))))
        \<le> MAX_CONCURRENT_REQUESTS" by blast
  from h e1 l e2 r e3 e4 show ?thesis by (intro conjI)
qed

section \<open>The order of dispatch\<close>

lemma compare_le:
  "compare a b \<le> 0 \<longleftrightarrow>
     priority b < priority a \<or> (priority a = priority b \<and> timestamp a \<le> timestamp b)"
  by (auto simp: compare_def)

lemma set_insert_request: "set (insert_request x xs) = insert x (set xs)"
  by (induction xs) auto

lemma mset_insert_request: "mset (insert_request x xs) = add_mset x (mset xs)"
  by (induction xs) auto

lemma mset_sort_requests: "mset (sort_requests xs) = mset xs"
  by (induction xs) (simp_all add: mset_insert_request)

lemma sorted_insert_request:
  "sorted_wrt (\<lambda>a b. compare a b \<le> 0) xs \<Longrightarrow>
     sorted_wrt (\<lambda>a b. compare a b \<le> 0) (insert_request x xs)"
proof (induction xs)
  case Nil
  show ?case by simp
next
  case (Cons y ys)
  show ?case
  proof (cases "compare x y \<le> 0")
    case True
    have "\<forall>z\<in>set ys. compare x z \<le> 0"
    proof
      fix z assume "z \<in> set ys"
      with Cons.prems have "compare y z \<le> 0" by simp
      with True show "compare x z \<le> 0" by (auto simp: compare_le)
    qed
    with True Cons.prems show ?thesis by simp
  next
    case False
    then have yx: "compare y x \<le> 0" by (auto simp: compare_le)
    from Cons.prems have "sorted_wrt (\<lambda>a b. compare a b \<le> 0) ys" by simp
    then have "sorted_wrt (\<lambda>a b. compare a b \<le> 0) (insert_request x ys)" by (rule Cons.IH)
    with False yx Cons.prems show ?thesis by (auto simp: set_insert_request)
  qed
qed

lemma sorted_sort_requests: "sorted_wrt (\<lambda>a b. compare a b \<le> 0) (sort_requests xs)"
  by (induction xs) (simp_all add: sorted_insert_request)

lemma processed_dispatch: "processedRequests (dispatch now s r) = processedRequests s"
  by (simp add: dispatch_def processRequestSafely_def Let_def)

lemma executed_dispatch:
  "executed (dispatch now s r) =
     executed s @ (if Map_has (processedRequests s) (req_id r) then [] else [req_id r])"
  by (simp add: dispatch_def processRequestSafely_def Let_def)

lemma executed_loop:
  "executed (foldl (dispatch now) s rs) =
     executed s @ map req_id (filter (\<lambda>r. \<not> Map_has (processedRequests s) (req_id r)) rs)"
  by (induction rs arbitrary: s) (simp_all add: executed_dispatch processed_dispatch)

text \<open>
  C7. A tick that reaches its loop calls \<open>execute\<close> for the requests it takes from the
  queue, in the order in which it took them (those already in \<open>processedRequests\<close> are
  left out); the requests taken, followed by those left in the queue, are the queue ordered
  by priority, highest first, and among equal priorities by time stamp, oldest first.
\<close>

theorem dispatch_in_priority_order:
  assumes "\<not> isProcessingQueue s" and "requestQueue s \<noteq> []"
    and "\<not> fst (isCircuitOpen now s)" and "0 < availableSlots s"
  shows "executed (processQueue now s) =
           executed s @ map req_id
             (filter (\<lambda>r. \<not> Map_has (processedRequests s) (req_id r)) (requestsToProcess s))
       \<and> sorted_wrt (\<lambda>a b. priority b < priority a
                            \<or> (priority a = priority b \<and> timestamp a \<le> timestamp b))
           (requestsToProcess s @ requestQueue (processQueue now s))
       \<and> mset (requestsToProcess s @ requestQueue (processQueue now s)) = mset (requestQueue s)"
proof -
  let ?n = "nat (availableSlots s)"
  let ?sorted = "sort_requests (requestQueue s)"
  note p = processQueue_runs[OF assms]
  have q: "requestQueue (processQueue now s) = drop ?n ?sorted"
    by (simp add: p queue_loop)
  have whole: "requestsToProcess s @ requestQueue (processQueue now s) = ?sorted"
    by (simp add: q requestsToProcess_def)
  have e: "executed (processQueue now s) =
           executed s @ map req_id
             (filter (\<lambda>r. \<not> Map_has (processedRequests s) (req_id r)) (requestsToProcess s))"
    by (simp add: p executed_loop isCircuitOpen_frame)
  have "sorted_wrt (\<lambda>a b. compare a b \<le> 0) ?sorted" by (rule sorted_sort_requests)
  then have s: "sorted_wrt (\<lambda>a b. priority b < priority a
                            \<or> (priority a = priority b \<and> timestamp a \<le> timestamp b)) ?sorted"
    by (simp add: compare_le)
  show ?thesis using e s by (simp only: whole mset_sort_requests)
qed

lemma slot_freed_eval:
  "slot_freed = \<lparr>requestQueue =
    [\<lparr>req_id = ''A_{}'', promise = 3, priority = 1, timestamp = 0\<rparr>,
     \<lparr>req_id = ''B_{}'', promise = 4, priority = 2, timestamp = 1\<rparr>],
    pendingRequests =
      [(''y_{}'', 1), (''z_{}'', 2), (''A_{}'', 3), (''B_{}'', 4)],
    activeRequests = [''y_{}'', ''z_{}''],
    processedRequests = [(''x_{}'', Inr (Arr []), 20)],
    isProcessingQueue = False, failureCount = 0, lastFailureTime = 0,
    promises = [Fulfilled (Arr []), Pending, Pending, Pending, Pending],
    inflight =
      [(\<lparr>req_id = ''y_{}'', promise = 1, priority = 1, timestamp = - 29\<rparr>,
        - 20),
       (\<lparr>req_id = ''z_{}'', promise = 2, priority = 1, timestamp = - 28\<rparr>,
        - 20)],
    executed = [''x_{}'', ''y_{}'', ''z_{}'']\<rparr>"
  by code_simp

text \<open>
  The instance of the claim: with \<open>A\<close> (priority 1, time 0) and \<open>B\<close> (priority 2, time 1)
  queued and one slot free, the tick executes \<open>B\<close> and leaves \<open>A\<close> in the queue.
\<close>

theorem dispatch_in_priority_order_witness:
  "\<not> isProcessingQueue slot_freed \<and> requestQueue slot_freed \<noteq> []
   \<and> \<not> fst (isCircuitOpen 100 slot_freed) \<and> 0 < availableSlots slot_freed
   \<and> requestQueue slot_freed =
        [\<lparr>req_id = ''A_{}'', promise = 3, priority = 1, timestamp = 0\<rparr>,
         \<lparr>req_id = ''B_{}'', promise = 4, priority = 2, timestamp = 1\<rparr>]
   \<and> executed (processQueue 100 slot_freed) = executed slot_freed @ [''B_{}'']
   \<and> requestQueue (processQueue 100 slot_freed) =
        [\<lparr>req_id = ''A_{}'', promise = 3, priority = 1, timestamp = 0\<rparr>]"
proof -
  have h: "\<not> isProcessingQueue slot_freed" "requestQueue slot_freed \<noteq> []"
    "\<not> fst (isCircuitOpen 100 slot_freed)" "0 < availableSlots slot_freed"
    by (simp_all add: slot_freed_eval isCircuitOpen_def availableSlots_def
        FAILURE_THRESHOLD_def MAX_CONCURRENT_REQUESTS_def)
  have r: "requestsToProcess slot_freed =
      [\<lparr>req_id = ''B_{}'', promise = 4, priority = 2, timestamp = 1\<rparr>]"
    by (simp add: slot_freed_eval requestsToProcess_def availableSlots_def
        MAX_CONCURRENT_REQUESTS_def compare_def)
  have m: "processedRequests slot_freed = [(''x_{}'', Inr (Arr []), 20)]"
    by (simp add: slot_freed_eval)
  have q: "requestQueue (processQueue 100 slot_freed) =
        [\<lparr>req_id = ''A_{}'', promise = 3, priority = 1, timestamp = 0\<rparr>]"
    by (simp add: processQueue_runs[OF h] queue_loop)
      (simp add: slot_freed_eval availableSlots_def MAX_CONCURRENT_REQUESTS_def compare_def)
  show ?thesis
    using h q dispatch_in_priority_order [OF h]
    by (simp add: r m Map_has_def) (simp add: slot_freed_eval)
qed

section \<open>Deduplication\<close>

lemma inflight_dispatch:
  "inflight (dispatch now s r) =
     inflight s @ (if Map_has (processedRequests s) (req_id r) then [] else [(r, now)])"
  by (simp add: dispatch_def processRequestSafely_def Let_def)

lemma inflight_loop:
  "inflight (foldl (dispatch now) s rs) =
     inflight s @ map (\<lambda>r. (r, now))
       (filter (\<lambda>r. \<not> Map_has (processedRequests s) (req_id r)) rs)"
  by (induction rs arbitrary: s) (simp_all add: inflight_dispatch processed_dispatch)

lemma frame_loop:
  "pendingRequests (foldl (dispatch now) s rs) = pendingRequests s"
  "promises (foldl (dispatch now) s rs) = promises s"
  "processedRequests (foldl (dispatch now) s rs) = processedRequests s"
  "failureCount (foldl (dispatch now) s rs) = failureCount s"
  "lastFailureTime (foldl (dispatch now) s rs) = lastFailureTime s"
  by (induction rs arbitrary: s) (simp_all add: dispatch_def processRequestSafely_def Let_def)

lemma length_filter_insert_request:
  "length (filter P (insert_request x xs)) = length (filter P (x # xs))"
  by (induction xs) simp_all

lemma length_filter_sort_requests:
  "length (filter P (sort_requests xs)) = length (filter P xs)"
  by (induction xs) (simp_all add: length_filter_insert_request)

lemma length_filter_filter_le:
  "length (filter P (filter Q xs)) \<le> length (filter P xs)"
  by (induction xs) simp_all

lemma length_filter_stamp:
  "length (filter (\<lambda>e. req_id (fst e) = k) (map (\<lambda>r. (r, now)) rs))
     = length (filter (\<lambda>r. req_id r = k) rs)"
  by (induction rs) simp_all

lemma length_filter_take_drop:
  "length (filter P (take n xs)) + length (filter P (drop n xs)) = length (filter P xs)"
proof -
  have "filter P xs = filter P (take n xs @ drop n xs)" by simp
  also have "\<dots> = filter P (take n xs) @ filter P (drop n xs)" by (rule filter_append)
  finally show ?thesis by simp
qed

text \<open>What a tick that reaches the loop leaves in each field.\<close>

lemma processQueue_fields:
  assumes "\<not> isProcessingQueue s" and "requestQueue s \<noteq> []"
    and "\<not> fst (isCircuitOpen now s)" and "0 < availableSlots s"
  shows "requestQueue (processQueue now s)
           = drop (nat (availableSlots s)) (sort_requests (requestQueue s))"
    and "inflight (processQueue now s) = inflight s @ map (\<lambda>r. (r, now))
           (filter (\<lambda>r. \<not> Map_has (processedRequests s) (req_id r)) (requestsToProcess s))"
    and "executed (processQueue now s) = executed s @ map req_id
           (filter (\<lambda>r. \<not> Map_has (processedRequests s) (req_id r)) (requestsToProcess s))"
    and "pendingRequests (processQueue now s) = pendingRequests s"
    and "promises (processQueue now s) = promises s"
    and "processedRequests (processQueue now s) = processedRequests s"
    and "\<not> isProcessingQueue (processQueue now s)"
  by (simp_all add: processQueue_runs[OF assms] queue_loop inflight_loop executed_loop
      frame_loop isCircuitOpen_frame)

lemma processQueue_idle:
  assumes "isProcessingQueue s \<or> requestQueue s = [] \<or> fst (isCircuitOpen now s)
             \<or> availableSlots s \<le> 0"
  shows "requestQueue (processQueue now s) = requestQueue s"
    and "inflight (processQueue now s) = inflight s"
    and "executed (processQueue now s) = executed s"
    and "pendingRequests (processQueue now s) = pendingRequests s"
    and "promises (processQueue now s) = promises s"
    and "processedRequests (processQueue now s) = processedRequests s"
    and "isProcessingQueue (processQueue now s) = isProcessingQueue s"
  using processQueue_skips[OF assms] by (auto simp: isCircuitOpen_frame)

lemma occurrences_processQueue: "occurrences k (processQueue now s) \<le> occurrences k s"
proof (cases "isProcessingQueue s \<or> requestQueue s = [] \<or> fst (isCircuitOpen now s)
             \<or> availableSlots s \<le> 0")
  case True
  then show ?thesis by (simp add: occurrences_def processQueue_idle)
next
  case False
  then have a: "\<not> isProcessingQueue s" "requestQueue s \<noteq> []"
    "\<not> fst (isCircuitOpen now s)" "0 < availableSlots s" by auto
  let ?n = "nat (availableSlots s)"
  let ?sorted = "sort_requests (requestQueue s)"
  let ?P = "\<lambda>r. req_id r = k"
  have new: "length (filter (\<lambda>e. req_id (fst e) = k) (map (\<lambda>r. (r, now))
           (filter (\<lambda>r. \<not> Map_has (processedRequests s) (req_id r)) (take ?n ?sorted))))
        \<le> length (filter ?P (take ?n ?sorted))"
    unfolding length_filter_stamp by (rule length_filter_filter_le)
  have "length (filter ?P (take ?n ?sorted)) + length (filter ?P (drop ?n ?sorted))
          = length (filter ?P (requestQueue s))"
    by (simp add: length_filter_take_drop length_filter_sort_requests)
  with new show ?thesis
    by (simp add: occurrences_def processQueue_fields[OF a] requestsToProcess_def)
qed

lemma wf_processQueue:
  assumes "wf s"
  shows "wf (processQueue now s)"
proof -
  have p: "pendingRequests (processQueue now s) = pendingRequests s"
    using processQueue_idle(4)[of s now] processQueue_fields(4)[of s now] by force
  have i: "\<not> isProcessingQueue (processQueue now s)"
    using processQueue_idle(7)[of s now] processQueue_fields(7)[of s now] assms
    by (force simp: wf_def)
  show ?thesis
    unfolding wf_def p
  proof (intro conjI allI)
    show "\<not> isProcessingQueue (processQueue now s)" by (rule i)
  next
    fix k
    have "occurrences k (processQueue now s) \<le> occurrences k s"
      by (rule occurrences_processQueue)
    also have "\<dots> \<le> (if Map_has (pendingRequests s) k then 1 else 0)"
      using assms by (simp add: wf_def)
    finally show "occurrences k (processQueue now s)
        \<le> (if Map_has (pendingRequests s) k then 1 else 0)" .
  qed
qed


lemma Map_has_set: "Map_has (Map_set k v m) k' \<longleftrightarrow> k' = k \<or> Map_has m k'"
  by (simp add: Map_has_def Map_set_def update_conv')

lemma Map_has_delete: "Map_has (Map_delete k m) k' \<longleftrightarrow> k' \<noteq> k \<and> Map_has m k'"
  by (simp add: Map_has_def Map_delete_def delete_conv')

lemma wf_init: "wf init"
  by (simp add: wf_def init_def occurrences_def)

lemma wf_queueSubgraphRequest:
  assumes "wf s"
  shows "wf (snd (queueSubgraphRequest stringify q v p t s))"
proof (cases "map_of (pendingRequests s) (getRequestId stringify q v)")
  case (Some h)
  then show ?thesis using assms by (simp add: queueSubgraphRequest_def)
next
  case None
  let ?k = "getRequestId stringify q v"
  from None have "\<not> Map_has (pendingRequests s) ?k" by (simp add: Map_has_def)
  moreover from assms
  have "occurrences ?k s \<le> (if Map_has (pendingRequests s) ?k then 1 else 0)"
    by (simp add: wf_def)
  ultimately have z: "occurrences ?k s = 0" by simp
  have "occurrences k (snd (queueSubgraphRequest stringify q v p t s))
          \<le> (if Map_has (pendingRequests (snd (queueSubgraphRequest stringify q v p t s))) k
              then 1 else 0)" for k
  proof (cases "k = ?k")
    case True
    then show ?thesis using z None
      by (simp add: queueSubgraphRequest_def Let_def occurrences_def Map_has_set)
  next
    case False
    have "occurrences k s \<le> (if Map_has (pendingRequests s) k then 1 else 0)"
      using assms by (simp add: wf_def)
    with False show ?thesis using None
      by (simp add: queueSubgraphRequest_def Let_def occurrences_def Map_has_set)
  qed
  moreover have "\<not> isProcessingQueue (snd (queueSubgraphRequest stringify q v p t s))"
    using assms None by (simp add: queueSubgraphRequest_def Let_def wf_def)
  ultimately show ?thesis by (simp add: wf_def)
qed

lemma filter_member_pos: "e \<in> set xs \<Longrightarrow> P e \<Longrightarrow> 0 < length (filter P xs)"
  by (induction xs) auto

lemma length_filter_remove1:
  "e \<in> set xs \<Longrightarrow>
     length (filter P (remove1 e xs)) = length (filter P xs) - (if P e then 1 else 0)"
proof (induction xs)
  case Nil
  then show ?case by simp
next
  case (Cons a xs)
  show ?case
  proof (cases "e = a")
    case True
    then show ?thesis by simp
  next
    case False
    with Cons.prems have m: "e \<in> set xs" by simp
    from Cons.IH[OF m] filter_member_pos[OF m, of P] False show ?thesis by auto
  qed
qed

lemma find_SomeD: "find P xs = Some x \<Longrightarrow> P x \<and> x \<in> set xs"
  by (induction xs) (auto split: if_splits)

lemma settle_promise_frame:
  "requestQueue (settle_promise r v s) = requestQueue s"
  "inflight (settle_promise r v s) = inflight s"
  "executed (settle_promise r v s) = executed s"
  "isProcessingQueue (settle_promise r v s) = isProcessingQueue s"
  "processedRequests (settle_promise r v s) = processedRequests s"
  by (simp_all add: settle_promise_def)

lemma settle_promise_pending:
  "pendingRequests (settle_promise r v s) = pendingRequests s
   \<or> pendingRequests (settle_promise r v s) = Map_delete (req_id r) (pendingRequests s)"
  by (simp add: settle_promise_def)

lemma settle_found:
  "find (\<lambda>e. req_id (fst e) = rid) (inflight s) = Some (r, t0) \<Longrightarrow>
     settle rid b s = handled r t0 b (s\<lparr>inflight := remove1 (r, t0) (inflight s)\<rparr>)"
  by (simp add: settle_def handled_def Let_def)

lemma settle_not_found:
  "find (\<lambda>e. req_id (fst e) = rid) (inflight s) = None \<Longrightarrow> settle rid b s = s"
  by (simp add: settle_def)

lemma handled_frame:
  "requestQueue (handled r t0 b s) = requestQueue s"
  "inflight (handled r t0 b s) = inflight s"
  "executed (handled r t0 b s) = executed s"
  "isProcessingQueue (handled r t0 b s) = isProcessingQueue s"
  by (simp_all add: handled_def finally_handler_def then_handler_def catch_handler_def
      Let_def settle_promise_frame recordSuccess_def recordFailure_def split: sum.splits)

lemma handled_pending:
  "pendingRequests (handled r t0 b s) = pendingRequests s
   \<or> pendingRequests (handled r t0 b s) = Map_delete (req_id r) (pendingRequests s)"
proof (cases "snd (race b)")
  case (Inl e)
  let ?x = "(recordFailure (t0 + fst (race b)) s)\<lparr>processedRequests :=
      Map_set (req_id r) (Inl e, t0 + fst (race b))
        (processedRequests (recordFailure (t0 + fst (race b)) s))\<rparr>"
  have "pendingRequests ?x = pendingRequests s" by (simp add: recordFailure_def)
  with settle_promise_pending[of r "Rejected e" ?x] Inl show ?thesis
    by (simp add: handled_def finally_handler_def catch_handler_def Let_def)
next
  case (Inr res)
  let ?x = "(recordSuccess s)\<lparr>processedRequests :=
      Map_set (req_id r) (Inr res, t0 + fst (race b)) (processedRequests (recordSuccess s))\<rparr>"
  have "pendingRequests ?x = pendingRequests s" by (simp add: recordSuccess_def)
  with settle_promise_pending[of r "Fulfilled res" ?x] Inr show ?thesis
    by (simp add: handled_def finally_handler_def then_handler_def Let_def)
qed

lemma wf_settle:
  assumes "wf s"
  shows "wf (settle rid b s)"
proof (cases "find (\<lambda>e. req_id (fst e) = rid) (inflight s)")
  case None
  then show ?thesis using assms by (simp add: settle_not_found)
next
  case (Some e)
  obtain r t0 where e: "e = (r, t0)" by (cases e)
  from Some e have f: "find (\<lambda>e. req_id (fst e) = rid) (inflight s) = Some (r, t0)" by simp
  from find_SomeD[OF f] have rid: "req_id r = rid" and mem: "(r, t0) \<in> set (inflight s)"
    by simp_all
  let ?s1 = "s\<lparr>inflight := remove1 (r, t0) (inflight s)\<rparr>"
  let ?s' = "handled r t0 b ?s1"
  have s': "settle rid b s = ?s'" using f by (rule settle_found)
  have occ: "occurrences k ?s' = occurrences k s - (if k = rid then 1 else 0)" for k
  proof -
    have "length (filter (\<lambda>e. req_id (fst e) = k) (remove1 (r, t0) (inflight s)))
        = length (filter (\<lambda>e. req_id (fst e) = k) (inflight s)) - (if k = rid then 1 else 0)"
      using length_filter_remove1[OF mem, of "\<lambda>e. req_id (fst e) = k"] rid by auto
    moreover have "0 < length (filter (\<lambda>e. req_id (fst e) = rid) (inflight s))"
      using mem rid by (intro filter_member_pos[of "(r, t0)"]) simp_all
    ultimately show ?thesis
      by (simp add: occurrences_def handled_frame del: length_greater_0_conv)
  qed
  have pend: "pendingRequests ?s' = pendingRequests s
     \<or> pendingRequests ?s' = Map_delete rid (pendingRequests s)"
    using handled_pending[of r t0 b ?s1] rid by simp
  have "occurrences k ?s' \<le> (if Map_has (pendingRequests ?s') k then 1 else 0)" for k
  proof (cases "k = rid")
    case True
    have "occurrences rid s \<le> 1" using assms by (auto simp: wf_def split: if_splits)
    then have "occurrences rid ?s' = 0" by (simp add: occ)
    with True show ?thesis by simp
  next
    case False
    have "occurrences k s \<le> (if Map_has (pendingRequests s) k then 1 else 0)"
      using assms by (simp add: wf_def)
    moreover have "Map_has (pendingRequests ?s') k = Map_has (pendingRequests s) k"
      using pend False by (auto simp: Map_has_delete)
    ultimately show ?thesis using False by (simp add: occ)
  qed
  moreover have "\<not> isProcessingQueue ?s'" using assms by (simp add: handled_frame wf_def)
  ultimately show ?thesis by (simp add: wf_def s')
qed

lemma wf_step: "wf s \<Longrightarrow> wf (step stringify s ev)"
proof (cases ev)
  case (Call q v p t)
  assume "wf s"
  with Call show ?thesis by (simp add: wf_queueSubgraphRequest)
next
  case (Tick now)
  assume "wf s"
  with Tick show ?thesis by (simp add: wf_processQueue)
next
  case (Settle rid b)
  assume "wf s"
  with Settle show ?thesis by (simp add: wf_settle)
next
  case (Sweep now)
  assume "wf s"
  with Sweep show ?thesis by (simp add: wf_def sweep_def occurrences_def)
next
  case (Status now)
  assume "wf s"
  with Status show ?thesis
    by (simp add: wf_def snd_getQueueStatus occurrences_def isCircuitOpen_frame)
qed

lemma wf_run: "wf s \<Longrightarrow> wf (run stringify evs s)"
  unfolding run_def
  by (induction evs arbitrary: s) (simp_all add: wf_step)

lemma wf_reachable: "wf (run stringify evs init)"
  by (rule wf_run) (rule wf_init)


lemma count_list_map_filter:
  "count_list (map f xs) k = length (filter (\<lambda>x. f x = k) xs)"
  by (induction xs) simp_all

lemma find_append_None:
  "find P xs = None \<Longrightarrow> find P (xs @ ys) = find P ys"
  by (induction xs) (auto split: if_splits)

lemma find_member: "x \<in> set xs \<Longrightarrow> P x \<Longrightarrow> find P xs \<noteq> None"
  by (induction xs) auto

lemma handled_settles:
  assumes "promise r < length (promises s)" and "promises s ! promise r = Pending"
  shows "promises (handled r t0 b s) ! promise r
           = (case snd (race b) of Inr result \<Rightarrow> Fulfilled result | Inl e \<Rightarrow> Rejected e)"
    and "map_of (pendingRequests (handled r t0 b s)) (req_id r) = None"
  using assms
  by (simp_all add: handled_def finally_handler_def then_handler_def catch_handler_def
      Let_def settle_promise_def recordSuccess_def recordFailure_def Map_delete_def
      delete_conv' split: sum.splits)

lemma queueSubgraphRequest_pending:
  "map_of (pendingRequests x) (getRequestId stringify q v) = Some h
     \<Longrightarrow> queueSubgraphRequest stringify q v p t x = (h, x)"
  by (simp add: queueSubgraphRequest_def)

lemma queueSubgraphRequest_new:
  assumes "map_of (pendingRequests s) (getRequestId stringify q v) = None"
  shows "queueSubgraphRequest stringify q v p t s =
     (length (promises s),
      s\<lparr> promises := promises s @ [Pending],
         requestQueue := requestQueue s @
           [\<lparr> req_id = getRequestId stringify q v, promise = length (promises s),
              priority = p, timestamp = t \<rparr>],
         pendingRequests := Map_set (getRequestId stringify q v) (length (promises s))
           (pendingRequests s) \<rparr>)"
  using assms by (simp add: queueSubgraphRequest_def Let_def)

text \<open>
  C1, as stated, fails when the id is in \<open>processedRequests\<close>: after the request \<open>q\<close> has
  failed, two calls share its id and the future 1; the tick, with the breaker closed and
  slots free, takes their queue entry and drops it, so \<open>execute\<close> does not run for them.
\<close>

theorem dedup_counterexample:
  "map_of (pendingRequests retry_state) (getRequestId stringify_empty ''q'' (Obj [])) = None
   \<and> fst (queueSubgraphRequest stringify_empty ''q'' (Obj []) 1 200 retry_state) = 1
   \<and> fst (queueSubgraphRequest stringify_empty ''q'' (Obj []) 1 201
        (snd (queueSubgraphRequest stringify_empty ''q'' (Obj []) 1 200 retry_state))) = 1
   \<and> \<not> fst (isCircuitOpen 300
        (run stringify_empty [Call ''q'' (Obj []) 1 200, Call ''q'' (Obj []) 1 201] retry_state))
   \<and> executed (run stringify_empty
        [Call ''q'' (Obj []) 1 200, Call ''q'' (Obj []) 1 201, Tick 300] retry_state)
       = executed retry_state
   \<and> requestQueue (run stringify_empty
        [Call ''q'' (Obj []) 1 200, Call ''q'' (Obj []) 1 201, Tick 300] retry_state) = []
   \<and> inflight (run stringify_empty
        [Call ''q'' (Obj []) 1 200, Call ''q'' (Obj []) 1 201, Tick 300] retry_state) = []
   \<and> promises (run stringify_empty
        [Call ''q'' (Obj []) 1 200, Call ''q'' (Obj []) 1 201, Tick 300] retry_state) ! 1
       = Pending"
  by code_simp

section \<open>Requests dropped at dispatch\<close>

lemma stuck_queueSubgraphRequest:
  assumes "stuck h s"
  shows "stuck h (snd (queueSubgraphRequest stringify q v p t s))"
  using assms
  by (auto simp: stuck_def queueSubgraphRequest_def Let_def nth_append split: option.splits)

lemma set_sort_requests: "set (sort_requests xs) = set xs"
  using mset_sort_requests[of xs] by (rule mset_eq_setD)

lemma stuck_processQueue:
  assumes "stuck h s"
  shows "stuck h (processQueue now s)"
proof (cases "isProcessingQueue s \<or> requestQueue s = [] \<or> fst (isCircuitOpen now s)
             \<or> availableSlots s \<le> 0")
  case True
  then show ?thesis using assms by (simp add: stuck_def processQueue_idle)
next
  case False
  then have a: "\<not> isProcessingQueue s" "requestQueue s \<noteq> []"
    "\<not> fst (isCircuitOpen now s)" "0 < availableSlots s" by auto
  note f = processQueue_fields[OF a]
  have q: "set (requestQueue (processQueue now s)) \<subseteq> set (requestQueue s)"
    using set_drop_subset[of "nat (availableSlots s)" "sort_requests (requestQueue s)"]
    by (simp add: f(1) set_sort_requests)
  have t: "set (requestsToProcess s) \<subseteq> set (requestQueue s)"
    using set_take_subset[of "nat (availableSlots s)" "sort_requests (requestQueue s)"]
    by (simp add: requestsToProcess_def set_sort_requests)
  have i: "fst ` set (inflight (processQueue now s))
             \<subseteq> fst ` set (inflight s) \<union> set (requestQueue s)"
    using t by (auto simp: f(2))
  have "\<forall>r\<in>set (requestQueue (processQueue now s)). promise r \<noteq> h"
    using assms q by (auto simp: stuck_def)
  moreover have "\<forall>e\<in>set (inflight (processQueue now s)). promise (fst e) \<noteq> h"
  proof
    fix e assume "e \<in> set (inflight (processQueue now s))"
    then have "fst e \<in> fst ` set (inflight s) \<union> set (requestQueue s)" using i by blast
    with assms show "promise (fst e) \<noteq> h" by (auto simp: stuck_def)
  qed
  ultimately show ?thesis using assms by (simp add: stuck_def f(5))
qed

lemma settle_promise_other:
  "promise r \<noteq> h \<Longrightarrow> promises (settle_promise r v s) ! h = promises s ! h"
  "length (promises (settle_promise r v s)) = length (promises s)"
  by (simp_all add: settle_promise_def)

lemma handled_other:
  assumes "promise r \<noteq> h"
  shows "promises (handled r t0 b s) ! h = promises s ! h"
    and "length (promises (handled r t0 b s)) = length (promises s)"
  using assms
  by (simp_all add: handled_def finally_handler_def then_handler_def catch_handler_def
      Let_def settle_promise_other recordSuccess_def recordFailure_def split: sum.splits)

lemma stuck_settle:
  assumes "stuck h s"
  shows "stuck h (settle rid b s)"
proof (cases "find (\<lambda>e. req_id (fst e) = rid) (inflight s)")
  case None
  then show ?thesis using assms by (simp add: settle_not_found)
next
  case (Some e)
  obtain r t0 where e: "e = (r, t0)" by (cases e)
  from Some e have f: "find (\<lambda>e. req_id (fst e) = rid) (inflight s) = Some (r, t0)" by simp
  from find_SomeD[OF f] have mem: "(r, t0) \<in> set (inflight s)" by simp
  with assms have ne: "promise r \<noteq> h" by (force simp: stuck_def)
  let ?s1 = "s\<lparr>inflight := remove1 (r, t0) (inflight s)\<rparr>"
  have "\<forall>e\<in>set (remove1 (r, t0) (inflight s)). promise (fst e) \<noteq> h"
    using assms set_remove1_subset[of "(r, t0)" "inflight s"] by (auto simp: stuck_def)
  then show ?thesis
    using assms handled_other[OF ne, of t0 b ?s1]
    by (simp add: settle_found[OF f] stuck_def handled_frame)
qed

lemma stuck_step: "stuck h s \<Longrightarrow> stuck h (step stringify s ev)"
proof (cases ev)
  case (Call q v p t)
  assume "stuck h s"
  with Call show ?thesis by (simp add: stuck_queueSubgraphRequest)
next
  case (Tick now)
  assume "stuck h s"
  with Tick show ?thesis by (simp add: stuck_processQueue)
next
  case (Settle rid b)
  assume "stuck h s"
  with Settle show ?thesis by (simp add: stuck_settle)
next
  case (Sweep now)
  assume "stuck h s"
  with Sweep show ?thesis by (simp add: stuck_def sweep_def)
next
  case (Status now)
  assume "stuck h s"
  with Status show ?thesis by (simp add: stuck_def snd_getQueueStatus isCircuitOpen_frame)
qed

lemma stuck_run: "stuck h s \<Longrightarrow> stuck h (run stringify evs s)"
  unfolding run_def
  by (induction evs arbitrary: s) (simp_all add: stuck_step)

lemma retry_state_eval:
  "retry_state = \<lparr>requestQueue = [], pendingRequests = [], activeRequests = [],
     processedRequests = [(''q_{}'', Inl (HttpException 500), 150)],
     isProcessingQueue = False, failureCount = 1, lastFailureTime = 150,
     promises = [Rejected (HttpException 500)], inflight = [], executed = [''q_{}'']\<rparr>"
  by code_simp

lemma dropped_state_eval:
  "dropped_state = \<lparr>requestQueue = [], pendingRequests = [(''q_{}'', 1)], activeRequests = [],
     processedRequests = [(''q_{}'', Inl (HttpException 500), 150)],
     isProcessingQueue = False, failureCount = 1, lastFailureTime = 150,
     promises = [Rejected (HttpException 500), Pending], inflight = [],
     executed = [''q_{}'']\<rparr>"
  by code_simp

text \<open>
  C2 at the failing input: the retry of the failed request \<open>q\<close> is queued with the future
  1; the next tick removes it from the queue and, since its id is in
  \<open>processedRequests\<close>, neither executes nor settles it: it is neither queued nor running,
  and whatever happens afterwards the future 1 stays pending.
\<close>

theorem dropped_request_never_settles:
  "requestQueue (run stringify_empty [Call ''q'' (Obj []) 1 200] retry_state)
     = [\<lparr> req_id = ''q_{}'', promise = 1, priority = 1, timestamp = 200 \<rparr>]
   \<and> requestQueue dropped_state = []
   \<and> inflight dropped_state = []
   \<and> executed dropped_state = executed retry_state
   \<and> promises dropped_state ! 1 = Pending
   \<and> (\<forall>evs. promises (run stringify evs dropped_state) ! 1 = Pending)"
proof -
  have q: "requestQueue (run stringify_empty [Call ''q'' (Obj []) 1 200] retry_state)
     = [\<lparr> req_id = ''q_{}'', promise = 1, priority = 1, timestamp = 200 \<rparr>]"
    by code_simp
  have "stuck 1 dropped_state" by (simp add: stuck_def dropped_state_eval)
  then have "stuck 1 (run stringify evs dropped_state)" for evs by (rule stuck_run)
  then have "\<forall>evs. promises (run stringify evs dropped_state) ! 1 = Pending"
    by (simp add: stuck_def)
  then show ?thesis using q by (simp add: dropped_state_eval retry_state_eval)
qed

section \<open>Deduplication across an execution\<close>

lemma run_Nil: "run stringify [] s = s"
  by (simp add: run_def)

lemma run_Cons: "run stringify (e # evs) s = run stringify evs (step stringify s e)"
  by (simp add: run_def)

lemma run_snoc: "run stringify (evs @ [e]) s = step stringify (run stringify evs s) e"
  by (simp add: run_def)

text \<open>Frames of a tick and of a settlement, in every case.\<close>

lemma processQueue_frame:
  "pendingRequests (processQueue now s) = pendingRequests s"
  "promises (processQueue now s) = promises s"
  using processQueue_idle(4,5)[of s now] processQueue_fields(4,5)[of s now] by force+

lemma processQueue_queue_subset:
  "set (requestQueue (processQueue now s)) \<subseteq> set (requestQueue s)"
proof (cases "isProcessingQueue s \<or> requestQueue s = [] \<or> fst (isCircuitOpen now s)
             \<or> availableSlots s \<le> 0")
  case True
  then show ?thesis by (simp add: processQueue_idle)
next
  case False
  then have a: "\<not> isProcessingQueue s" "requestQueue s \<noteq> []"
    "\<not> fst (isCircuitOpen now s)" "0 < availableSlots s" by auto
  show ?thesis
    using set_drop_subset[of "nat (availableSlots s)" "sort_requests (requestQueue s)"]
    by (simp add: processQueue_fields(1)[OF a] set_sort_requests)
qed

lemma requestsToProcess_subset: "set (requestsToProcess s) \<subseteq> set (requestQueue s)"
  using set_take_subset[of "nat (availableSlots s)" "sort_requests (requestQueue s)"]
  by (simp add: requestsToProcess_def set_sort_requests)

lemma processQueue_inflight:
  "set (inflight s) \<subseteq> set (inflight (processQueue now s))"
  "fst ` set (inflight (processQueue now s)) \<subseteq> fst ` set (inflight s) \<union> set (requestQueue s)"
proof -
  show "set (inflight s) \<subseteq> set (inflight (processQueue now s))"
    using processQueue_idle(2)[of s now] processQueue_fields(2)[of s now] by force
  show "fst ` set (inflight (processQueue now s))
          \<subseteq> fst ` set (inflight s) \<union> set (requestQueue s)"
  proof (cases "isProcessingQueue s \<or> requestQueue s = [] \<or> fst (isCircuitOpen now s)
             \<or> availableSlots s \<le> 0")
    case True
    then show ?thesis by (simp add: processQueue_idle)
  next
    case False
    then have a: "\<not> isProcessingQueue s" "requestQueue s \<noteq> []"
      "\<not> fst (isCircuitOpen now s)" "0 < availableSlots s" by auto
    show ?thesis
      using requestsToProcess_subset[of s] by (auto simp: processQueue_fields(2)[OF a])
  qed
qed

text \<open>
  A tick executes an id at most as often as it takes entries with that id from the queue.
\<close>

lemma processQueue_count:
  "count_list (executed s) k \<le> count_list (executed (processQueue now s)) k"
  "count_list (executed (processQueue now s)) k
     + length (filter (\<lambda>r. req_id r = k) (requestQueue (processQueue now s)))
   \<le> count_list (executed s) k + length (filter (\<lambda>r. req_id r = k) (requestQueue s))"
proof -
  let ?P = "\<lambda>r. req_id r = k"
  let ?fresh = "\<lambda>r. \<not> Map_has (processedRequests s) (req_id r)"
  let ?n = "nat (availableSlots s)"
  let ?sorted = "sort_requests (requestQueue s)"
  have "count_list (executed s) k \<le> count_list (executed (processQueue now s)) k
    \<and> count_list (executed (processQueue now s)) k
         + length (filter ?P (requestQueue (processQueue now s)))
       \<le> count_list (executed s) k + length (filter ?P (requestQueue s))"
  proof (cases "isProcessingQueue s \<or> requestQueue s = [] \<or> fst (isCircuitOpen now s)
             \<or> availableSlots s \<le> 0")
    case True
    then show ?thesis by (simp add: processQueue_idle)
  next
    case False
    then have a: "\<not> isProcessingQueue s" "requestQueue s \<noteq> []"
      "\<not> fst (isCircuitOpen now s)" "0 < availableSlots s" by auto
    note f = processQueue_fields[OF a]
    have e: "count_list (executed (processQueue now s)) k
        = count_list (executed s) k + length (filter ?P (filter ?fresh (take ?n ?sorted)))"
      by (simp add: f(3) count_list_map_filter requestsToProcess_def del: filter_filter)
    have "length (filter ?P (filter ?fresh (take ?n ?sorted))) \<le> length (filter ?P (take ?n ?sorted))"
      by (rule length_filter_filter_le)
    moreover have "length (filter ?P (take ?n ?sorted)) + length (filter ?P (drop ?n ?sorted))
        = length (filter ?P (requestQueue s))"
      by (simp add: length_filter_take_drop length_filter_sort_requests)
    ultimately show ?thesis by (simp add: e f(1))
  qed
  then show "count_list (executed s) k \<le> count_list (executed (processQueue now s)) k"
    and "count_list (executed (processQueue now s)) k
     + length (filter ?P (requestQueue (processQueue now s)))
   \<le> count_list (executed s) k + length (filter ?P (requestQueue s))"
    by simp_all
qed

lemma handled_length: "length (promises (handled r t0 b s)) = length (promises s)"
  by (simp add: handled_def finally_handler_def then_handler_def catch_handler_def
      Let_def settle_promise_other(2) recordSuccess_def recordFailure_def split: sum.splits)

lemma settle_frame:
  "requestQueue (settle rid b s) = requestQueue s"
  "executed (settle rid b s) = executed s"
  "length (promises (settle rid b s)) = length (promises s)"
  "set (inflight (settle rid b s)) \<subseteq> set (inflight s)"
proof -
  have "requestQueue (settle rid b s) = requestQueue s \<and> executed (settle rid b s) = executed s
    \<and> length (promises (settle rid b s)) = length (promises s)
    \<and> set (inflight (settle rid b s)) \<subseteq> set (inflight s)"
  proof (cases "find (\<lambda>e. req_id (fst e) = rid) (inflight s)")
    case None
    then show ?thesis by (simp add: settle_not_found)
  next
    case (Some e)
    obtain r t0 where e: "e = (r, t0)" by (cases e)
    from Some e have f: "find (\<lambda>e. req_id (fst e) = rid) (inflight s) = Some (r, t0)" by simp
    show ?thesis
      using set_remove1_subset[of "(r, t0)" "inflight s"]
      by (simp add: settle_found[OF f] handled_frame handled_length)
  qed
  then show "requestQueue (settle rid b s) = requestQueue s"
    and "executed (settle rid b s) = executed s"
    and "length (promises (settle rid b s)) = length (promises s)"
    and "set (inflight (settle rid b s)) \<subseteq> set (inflight s)"
    by simp_all
qed

lemma promises_length_step: "length (promises s) \<le> length (promises (step stringify s e))"
proof (cases e)
  case (Call q v p t)
  then show ?thesis by (simp add: queueSubgraphRequest_def Let_def split: option.splits)
next
  case (Tick now)
  then show ?thesis by (simp add: processQueue_frame)
next
  case (Settle rid b)
  then show ?thesis by (simp add: settle_frame)
next
  case (Sweep now)
  then show ?thesis by (simp add: sweep_def)
next
  case (Status now)
  then show ?thesis by (simp add: snd_getQueueStatus isCircuitOpen_frame)
qed

lemma promises_length_run: "length (promises s) \<le> length (promises (run stringify evs s))"
proof (induction evs arbitrary: s)
  case Nil
  show ?case by (simp add: run_Nil)
next
  case (Cons e evs)
  have "length (promises s) \<le> length (promises (step stringify s e))"
    by (rule promises_length_step)
  also have "\<dots> \<le> length (promises (run stringify evs (step stringify s e)))"
    by (rule Cons.IH)
  finally show ?case by (simp add: run_Cons)
qed

text \<open>An entry that is in the queue after an event was there before it, unless the event is
  the call that made it, whose promise is new.\<close>

lemma queued_before_step:
  assumes "item \<in> set (requestQueue (step stringify s e))"
    and "promise item < length (promises s)"
  shows "item \<in> set (requestQueue s)"
proof (cases e)
  case (Call q v p t)
  then show ?thesis using assms
    by (auto simp: queueSubgraphRequest_def Let_def split: option.splits)
next
  case (Tick now)
  then show ?thesis using assms processQueue_queue_subset[of now s] by auto
next
  case (Settle rid b)
  then show ?thesis using assms by (simp add: settle_frame)
next
  case (Sweep now)
  then show ?thesis using assms by (simp add: sweep_def)
next
  case (Status now)
  then show ?thesis using assms by (simp add: snd_getQueueStatus isCircuitOpen_frame)
qed

lemma queued_before_run:
  assumes "item \<in> set (requestQueue (run stringify evs s))"
    and "promise item < length (promises s)"
  shows "item \<in> set (requestQueue s)"
  using assms
proof (induction evs arbitrary: s)
  case Nil
  then show ?case by (simp add: run_Nil)
next
  case (Cons e evs)
  from Cons.prems(2) promises_length_step[of s stringify e]
  have l: "promise item < length (promises (step stringify s e))" by simp
  from Cons.prems(1) have "item \<in> set (requestQueue (run stringify evs (step stringify s e)))"
    by (simp add: run_Cons)
  then have "item \<in> set (requestQueue (step stringify s e))" using l by (rule Cons.IH)
  then show ?case using Cons.prems(2) by (rule queued_before_step)
qed

lemma held_queueSubgraphRequest:
  assumes "held k h c s"
  shows "held k h c (snd (queueSubgraphRequest stringify q v p t s))"
proof (cases "map_of (pendingRequests s) (getRequestId stringify q v)")
  case (Some h')
  then show ?thesis using assms by (simp add: queueSubgraphRequest_def)
next
  case None
  let ?key = "getRequestId stringify q v"
  let ?s' = "snd (queueSubgraphRequest stringify q v p t s)"
  from assms have pk: "map_of (pendingRequests s) k = Some h" by (simp add: held_def)
  with None have ne: "?key \<noteq> k" by auto
  from assms have hl: "h < length (promises s)" by (simp add: held_def)
  have s': "?s' = s\<lparr> promises := promises s @ [Pending],
         requestQueue := requestQueue s @
           [\<lparr> req_id = ?key, promise = length (promises s), priority = p, timestamp = t \<rparr>],
         pendingRequests := Map_set ?key (length (promises s)) (pendingRequests s) \<rparr>"
    using queueSubgraphRequest_new[OF None, of p t] by simp
  have 1: "wf ?s'" using assms by (simp add: held_def wf_queueSubgraphRequest)
  have 2: "map_of (pendingRequests ?s') k = Some h"
    using pk ne by (simp add: s' Map_set_def update_conv')
  have 3: "h < length (promises ?s')" using hl by (simp add: s')
  have 4: "promises ?s' ! h = Pending" using assms hl by (simp add: s' held_def nth_append)
  have 5: "count_list (executed ?s') k = c" using assms by (simp add: s' held_def)
  have 6: "\<forall>r\<in>set (requestQueue ?s'). promise r = h \<longrightarrow> req_id r = k"
    using assms hl by (auto simp: s' held_def)
  have 7: "\<forall>e\<in>set (inflight ?s'). promise (fst e) = h \<longrightarrow> req_id (fst e) = k"
    using assms by (simp add: s' held_def)
  from 1 2 3 4 5 6 7 show ?thesis unfolding held_def by (intro conjI)
qed

lemma held_processQueue:
  assumes "held k h c s"
  shows "held k h (count_list (executed (processQueue now s)) k) (processQueue now s)"
proof -
  let ?s' = "processQueue now s"
  have 1: "wf ?s'" using assms by (simp add: held_def wf_processQueue)
  have 2: "map_of (pendingRequests ?s') k = Some h"
    using assms by (simp add: processQueue_frame held_def)
  have 3: "h < length (promises ?s')" using assms by (simp add: processQueue_frame held_def)
  have 4: "promises ?s' ! h = Pending" using assms by (simp add: processQueue_frame held_def)
  have 6: "\<forall>r\<in>set (requestQueue ?s'). promise r = h \<longrightarrow> req_id r = k"
    using assms processQueue_queue_subset[of now s] by (auto simp: held_def)
  have 7: "\<forall>e\<in>set (inflight ?s'). promise (fst e) = h \<longrightarrow> req_id (fst e) = k"
  proof
    fix e assume "e \<in> set (inflight ?s')"
    then have "fst e \<in> fst ` set (inflight s) \<union> set (requestQueue s)"
      using processQueue_inflight(2)[where s = s and now = now] by blast
    with assms show "promise (fst e) = h \<longrightarrow> req_id (fst e) = k" by (auto simp: held_def)
  qed
  from 1 2 3 4 6 7 show ?thesis unfolding held_def by (intro conjI) simp_all
qed

lemma held_settle_other:
  assumes "held k h c s" and "rid \<noteq> k"
  shows "held k h c (settle rid b s)"
proof (cases "find (\<lambda>e. req_id (fst e) = rid) (inflight s)")
  case None
  then show ?thesis using assms by (simp add: settle_not_found)
next
  case (Some e)
  obtain r t0 where e: "e = (r, t0)" by (cases e)
  from Some e have f: "find (\<lambda>e. req_id (fst e) = rid) (inflight s) = Some (r, t0)" by simp
  from find_SomeD[OF f] have rid: "req_id r = rid" and mem: "(r, t0) \<in> set (inflight s)"
    by simp_all
  let ?s1 = "s\<lparr>inflight := remove1 (r, t0) (inflight s)\<rparr>"
  let ?s' = "settle rid b s"
  have s': "?s' = handled r t0 b ?s1" using f by (rule settle_found)
  have ne: "promise r \<noteq> h"
  proof
    assume "promise r = h"
    with assms(1) mem have "req_id r = k" by (force simp: held_def)
    with rid assms(2) show False by simp
  qed
  have 1: "wf ?s'" using assms(1) by (simp add: held_def wf_settle)
  have "pendingRequests ?s' = pendingRequests s
      \<or> pendingRequests ?s' = Map_delete rid (pendingRequests s)"
    using handled_pending[of r t0 b ?s1] rid by (simp add: s')
  then have "map_of (pendingRequests ?s') k = map_of (pendingRequests s) k"
    using assms(2) by (auto simp: Map_delete_def delete_conv')
  then have 2: "map_of (pendingRequests ?s') k = Some h" using assms(1) by (simp add: held_def)
  have 3: "h < length (promises ?s')" using assms(1) by (simp add: settle_frame held_def)
  have 4: "promises ?s' ! h = Pending"
    using assms(1) handled_other(1)[OF ne, of t0 b ?s1] by (simp add: s' held_def)
  have 5: "count_list (executed ?s') k = c" using assms(1) by (simp add: settle_frame held_def)
  have 6: "\<forall>r\<in>set (requestQueue ?s'). promise r = h \<longrightarrow> req_id r = k"
    using assms(1) by (simp add: settle_frame held_def)
  have 7: "\<forall>e\<in>set (inflight ?s'). promise (fst e) = h \<longrightarrow> req_id (fst e) = k"
    using assms(1) settle_frame(4)[of rid b s] by (auto simp: held_def)
  from 1 2 3 4 5 6 7 show ?thesis unfolding held_def by (intro conjI)
qed

lemma held_sweep: "held k h c s \<Longrightarrow> held k h c (sweep now s)"
  by (simp add: held_def wf_def sweep_def occurrences_def)

lemma held_status: "held k h c s \<Longrightarrow> held k h c (snd (getQueueStatus now s))"
  by (simp add: held_def wf_def snd_getQueueStatus occurrences_def isCircuitOpen_frame)

text \<open>While the id is held, it is queued or running at most once.\<close>

lemma held_unique:
  assumes "held k h c s"
  shows "length (filter (\<lambda>r. req_id r = k) (requestQueue s))
         + length (filter (\<lambda>e. req_id (fst e) = k) (inflight s)) \<le> 1"
proof -
  from assms have "wf s" by (simp add: held_def)
  then have "occurrences k s \<le> (if Map_has (pendingRequests s) k then 1 else 0)"
    by (simp add: wf_def)
  then show ?thesis by (simp add: occurrences_def split: if_splits)
qed

lemma at_most_one:
  assumes "length (filter P xs) \<le> 1" and "a \<in> set xs" and "P a" and "b \<in> set xs" and "P b"
  shows "a = b"
  using assms
proof (induction xs)
  case Nil
  then show ?case by simp
next
  case (Cons x xs)
  show ?case
  proof (cases "P x")
    case True
    with Cons.prems(1) have "filter P xs = []" by simp
    then have "\<forall>y\<in>set xs. \<not> P y" by (simp add: filter_empty_conv)
    with Cons.prems show ?thesis by auto
  next
    case False
    with Cons.prems have "length (filter P xs) \<le> 1" "a \<in> set xs" "b \<in> set xs" by auto
    then show ?thesis using Cons.prems(3,5) by (intro Cons.IH)
  qed
qed

lemma ranged_step:
  assumes "ranged s"
  shows "ranged (step stringify s e)"
proof (cases e)
  case (Call q v p t)
  then show ?thesis using assms
    by (auto simp: ranged_def queueSubgraphRequest_def Let_def less_Suc_eq split: option.splits)
next
  case (Tick now)
  have "\<forall>r\<in>set (requestQueue (processQueue now s)). promise r < length (promises s)"
    using assms processQueue_queue_subset[of now s] by (auto simp: ranged_def)
  moreover have "\<forall>e\<in>set (inflight (processQueue now s)). promise (fst e) < length (promises s)"
  proof
    fix e assume "e \<in> set (inflight (processQueue now s))"
    then have "fst e \<in> fst ` set (inflight s) \<union> set (requestQueue s)"
      using processQueue_inflight(2)[where s = s and now = now] by blast
    with assms show "promise (fst e) < length (promises s)" by (auto simp: ranged_def)
  qed
  ultimately show ?thesis using Tick by (simp add: ranged_def processQueue_frame)
next
  case (Settle rid b)
  have "\<forall>e\<in>set (inflight (settle rid b s)). promise (fst e) < length (promises s)"
  proof
    fix e assume "e \<in> set (inflight (settle rid b s))"
    then have "e \<in> set (inflight s)" using settle_frame(4)[of rid b s] by blast
    with assms show "promise (fst e) < length (promises s)" by (simp add: ranged_def)
  qed
  then show ?thesis using Settle assms by (simp add: ranged_def settle_frame)
next
  case (Sweep now)
  then show ?thesis using assms by (simp add: ranged_def sweep_def)
next
  case (Status now)
  then show ?thesis using assms by (simp add: ranged_def snd_getQueueStatus isCircuitOpen_frame)
qed

lemma ranged_reachable: "ranged (run stringify evs init)"
proof (induction evs rule: rev_induct)
  case Nil
  show ?case by (simp add: run_Nil ranged_def init_def)
next
  case (snoc e evs)
  then show ?case by (simp add: run_snoc ranged_step)
qed

lemma run_append:
  "run stringify (evs @ evs') s = run stringify evs' (run stringify evs s)"
  by (simp add: run_def)

text \<open>The entry waits in the queue.\<close>

lemma waiting_step:
  assumes h: "held k h c s" and q: "item \<in> set (requestQueue s)"
    and q': "item \<in> set (requestQueue (step stringify s e))" and k: "req_id item = k"
  shows "held k h c (step stringify s e)"
proof (cases e)
  case (Call q v p t)
  then show ?thesis using h by (simp add: held_queueSubgraphRequest)
next
  case (Tick now)
  let ?P = "\<lambda>r. req_id r = k"
  from q' Tick have "item \<in> set (requestQueue (processQueue now s))" by simp
  then have "0 < length (filter ?P (requestQueue (processQueue now s)))"
    using k by (rule filter_member_pos)
  moreover have "length (filter ?P (requestQueue s)) \<le> 1" using held_unique[OF h] by simp
  moreover note processQueue_count[where s = s and k = k and now = now]
  moreover have "count_list (executed s) k = c" using h by (simp add: held_def)
  ultimately have "count_list (executed (processQueue now s)) k = c" by linarith
  with held_processQueue[OF h, of now] show ?thesis using Tick by simp
next
  case (Settle rid b)
  show ?thesis
  proof (cases "rid = k")
    case True
    have "0 < length (filter (\<lambda>r. req_id r = k) (requestQueue s))"
      using q k by (rule filter_member_pos)
    with held_unique[OF h] have "length (filter (\<lambda>e. req_id (fst e) = k) (inflight s)) = 0"
      by linarith
    then have "filter (\<lambda>e. req_id (fst e) = k) (inflight s) = []" by simp
    then have "find (\<lambda>e. req_id (fst e) = k) (inflight s) = None"
      by (force simp: find_None_iff filter_empty_conv)
    then show ?thesis using h Settle True by (simp add: settle_not_found)
  next
    case False
    with h Settle show ?thesis by (simp add: held_settle_other)
  qed
next
  case (Sweep now)
  then show ?thesis using h by (simp add: held_sweep)
next
  case (Status now)
  then show ?thesis using h by (simp add: held_status)
qed

lemma waiting_run:
  assumes h: "held k h c s" and k: "req_id item = k" and p: "promise item = h"
  shows "item \<in> set (requestQueue (run stringify evs s)) \<Longrightarrow> held k h c (run stringify evs s)"
proof (induction evs rule: rev_induct)
  case Nil
  show ?case using h by (simp add: run_Nil)
next
  case (snoc e evs)
  let ?y = "run stringify evs s"
  from h have "h < length (promises s)" by (simp add: held_def)
  with promises_length_run[of s stringify evs] p
  have l: "promise item < length (promises ?y)" by simp
  from snoc.prems have q': "item \<in> set (requestQueue (step stringify ?y e))"
    by (simp add: run_snoc)
  then have q: "item \<in> set (requestQueue ?y)" using l by (rule queued_before_step)
  then have "held k h c ?y" by (rule snoc.IH)
  then have "held k h c (step stringify ?y e)" using q q' k by (rule waiting_step)
  then show ?case by (simp add: run_snoc)
qed

text \<open>The tick that takes the entry.\<close>

lemma taking_tick:
  assumes h: "held k h c s" and t: "item \<in> set (requestsToProcess s)" and k: "req_id item = k"
    and closed: "\<not> fst (isCircuitOpen now s)" and memo: "\<not> Map_has (processedRequests s) k"
  shows "held k h (Suc c) (processQueue now s)"
    and "(item, now) \<in> set (inflight (processQueue now s))"
proof -
  let ?P = "\<lambda>r. req_id r = k"
  let ?fresh = "\<lambda>r. \<not> Map_has (processedRequests s) (req_id r)"
  have q: "item \<in> set (requestQueue s)" using t requestsToProcess_subset[of s] by blast
  have run: "\<not> isProcessingQueue s" "requestQueue s \<noteq> []"
    "\<not> fst (isCircuitOpen now s)" "0 < availableSlots s"
  proof -
    show "\<not> isProcessingQueue s" using h by (simp add: held_def wf_def)
    show "requestQueue s \<noteq> []" using q by auto
    show "\<not> fst (isCircuitOpen now s)" by (rule closed)
    show "0 < availableSlots s"
    proof (rule ccontr)
      assume "\<not> 0 < availableSlots s"
      then have "requestsToProcess s = []" by (simp add: requestsToProcess_def)
      with t show False by simp
    qed
  qed
  note f = processQueue_fields[OF run]
  have in_new: "item \<in> set (filter ?fresh (requestsToProcess s))" using t memo k by simp
  have e: "count_list (executed (processQueue now s)) k
      = count_list (executed s) k + length (filter ?P (filter ?fresh (requestsToProcess s)))"
    by (simp add: f(3) count_list_map_filter del: filter_filter)
  have "0 < length (filter ?P (filter ?fresh (requestsToProcess s)))"
    using in_new k by (rule filter_member_pos)
  moreover have "length (filter ?P (requestQueue s)) \<le> 1" using held_unique[OF h] by simp
  moreover note processQueue_count(2)[where s = s and k = k and now = now]
  moreover have "count_list (executed s) k = c" using h by (simp add: held_def)
  ultimately have "count_list (executed (processQueue now s)) k = Suc c" using e by linarith
  with held_processQueue[OF h, of now] show "held k h (Suc c) (processQueue now s)" by simp
  show "(item, now) \<in> set (inflight (processQueue now s))"
    using in_new by (simp add: f(2))
qed

text \<open>The entry is running.\<close>

lemma inflight_queueSubgraphRequest:
  "inflight (snd (queueSubgraphRequest stringify q v p t s)) = inflight s"
  by (simp add: queueSubgraphRequest_def Let_def split: option.splits)

lemma running_step:
  assumes h: "held k h c s" and i: "(item, t0) \<in> set (inflight s)" and k: "req_id item = k"
    and e: "\<forall>b. e \<noteq> Settle k b"
  shows "held k h c (step stringify s e)"
    and "(item, t0) \<in> set (inflight (step stringify s e))"
proof -
  have "held k h c (step stringify s e) \<and> (item, t0) \<in> set (inflight (step stringify s e))"
  proof (cases e)
    case (Call q v p t)
    then show ?thesis using h i
      by (simp add: held_queueSubgraphRequest inflight_queueSubgraphRequest)
  next
    case (Tick now)
    have "0 < length (filter (\<lambda>e. req_id (fst e) = k) (inflight s))"
      using i by (rule filter_member_pos) (simp add: k)
    with held_unique[OF h] have "length (filter (\<lambda>r. req_id r = k) (requestQueue s)) = 0"
      by linarith
    moreover note processQueue_count[where s = s and k = k and now = now]
    moreover have "count_list (executed s) k = c" using h by (simp add: held_def)
    ultimately have "count_list (executed (processQueue now s)) k = c" by linarith
    with held_processQueue[OF h, of now] have "held k h c (processQueue now s)" by simp
    moreover have "(item, t0) \<in> set (inflight (processQueue now s))"
      using i processQueue_inflight(1)[where s = s and now = now] by blast
    ultimately show ?thesis using Tick by simp
  next
    case (Settle rid b)
    with e have ne: "rid \<noteq> k" by auto
    have 1: "held k h c (settle rid b s)" using h ne by (rule held_settle_other)
    have 2: "(item, t0) \<in> set (inflight (settle rid b s))"
    proof (cases "find (\<lambda>e. req_id (fst e) = rid) (inflight s)")
      case None
      then show ?thesis using i by (simp add: settle_not_found)
    next
      case (Some x)
      obtain r t1 where x: "x = (r, t1)" by (cases x)
      from Some x have f: "find (\<lambda>e. req_id (fst e) = rid) (inflight s) = Some (r, t1)" by simp
      from find_SomeD[OF f] have "req_id r = rid" by simp
      with ne k have "(item, t0) \<noteq> (r, t1)" by auto
      with i show ?thesis by (simp add: settle_found[OF f] handled_frame)
    qed
    from 1 2 Settle show ?thesis by simp
  next
    case (Sweep now)
    then show ?thesis using h i by (simp add: held_sweep) (simp add: sweep_def)
  next
    case (Status now)
    then show ?thesis using h i
      by (simp add: held_status) (simp add: snd_getQueueStatus isCircuitOpen_frame)
  qed
  then show "held k h c (step stringify s e)"
    and "(item, t0) \<in> set (inflight (step stringify s e))" by simp_all
qed

lemma running_run:
  assumes k: "req_id item = k"
  shows "held k h c s \<Longrightarrow> (item, t0) \<in> set (inflight s) \<Longrightarrow> \<forall>b. Settle k b \<notin> set evs
    \<Longrightarrow> held k h c (run stringify evs s) \<and> (item, t0) \<in> set (inflight (run stringify evs s))"
proof (induction evs arbitrary: s)
  case Nil
  then show ?case by (simp add: run_Nil)
next
  case (Cons e evs)
  from Cons.prems(3) have e: "\<forall>b. e \<noteq> Settle k b" and rest: "\<forall>b. Settle k b \<notin> set evs"
    by auto
  note r = running_step[OF Cons.prems(1,2) k e, of stringify]
  from Cons.IH[OF r rest] show ?case by (simp add: run_Cons)
qed

text \<open>The race of the running entry settles.\<close>

lemma running_settle:
  assumes h: "held k h c s" and i: "(item, t0) \<in> set (inflight s)" and k: "req_id item = k"
    and p: "promise item = h"
  shows "executed (settle k b s) = executed s"
    and "promises (settle k b s) ! h
          = (case snd (race b) of Inr result \<Rightarrow> Fulfilled result | Inl e \<Rightarrow> Rejected e)"
    and "map_of (pendingRequests (settle k b s)) k = None"
proof -
  let ?P = "\<lambda>e. req_id (fst e) = k"
  have "find ?P (inflight s) \<noteq> None" using i by (rule find_member) (simp add: k)
  then obtain x where x: "find ?P (inflight s) = Some x" by blast
  from find_SomeD[OF x] have "?P x" and "x \<in> set (inflight s)" by simp_all
  moreover have "length (filter ?P (inflight s)) \<le> 1" using held_unique[OF h] by simp
  ultimately have "x = (item, t0)" using i k by (intro at_most_one[of ?P "inflight s"]) simp_all
  with x have f: "find ?P (inflight s) = Some (item, t0)" by simp
  let ?s1 = "s\<lparr>inflight := remove1 (item, t0) (inflight s)\<rparr>"
  have st: "settle k b s = handled item t0 b ?s1" using f by (rule settle_found)
  have hs: "promise item < length (promises ?s1)" "promises ?s1 ! promise item = Pending"
    using h p by (simp_all add: held_def)
  show "executed (settle k b s) = executed s" by (simp add: settle_frame)
  show "promises (settle k b s) ! h
          = (case snd (race b) of Inr result \<Rightarrow> Fulfilled result | Inl e \<Rightarrow> Rejected e)"
    using handled_settles(1)[OF hs, of t0 b] p by (simp add: st)
  show "map_of (pendingRequests (settle k b s)) k = None"
    using handled_settles(2)[OF hs, of t0 b] k by (simp add: st)
qed


text \<open>
  C1, amended. In a state the service can reach, let a call have an id \<open>k\<close> that is not
  pending. The call appends one entry to the queue and returns a new future \<open>h\<close>. In any
  state in which the id is pending, a call with that id returns the pending future and
  changes nothing. Whatever calls, ticks, settlements, cleanups and status calls happen
  while the entry waits (\<open>evs1\<close>), after each of them the id is pending with \<open>h\<close>, the
  future is unsettled and \<open>execute\<close> has not run for the id. When then a tick with the
  breaker closed takes the entry and the id is not in \<open>processedRequests\<close>, \<open>execute\<close>
  runs once for the id; whatever happens until the race of the entry settles (\<open>evs2\<close>),
  after each event the id is pending with \<open>h\<close>, the future is unsettled and \<open>execute\<close>
  has run exactly once for the id since the call. When the race settles, \<open>execute\<close> has
  still run exactly once, the future is fulfilled with the value of \<open>execute\<close> or rejected
  with its error or the timeout, which is what every caller holding \<open>h\<close> sees, and the id
  is no longer pending.
\<close>

theorem dedup_one_execution:
  assumes reach: "s = run stringify evs init"
    and k: "k = getRequestId stringify q v"
    and fresh: "map_of (pendingRequests s) k = None"
    and first: "queueSubgraphRequest stringify q v p t s = (h, s1)"
    and item: "item = \<lparr> req_id = k, promise = h, priority = p, timestamp = t \<rparr>"
    and taken: "item \<in> set (requestsToProcess (run stringify evs1 s1))"
    and closed: "\<not> fst (isCircuitOpen now (run stringify evs1 s1))"
    and fresh_memo: "\<not> Map_has (processedRequests (run stringify evs1 s1)) k"
    and s2: "s2 = processQueue now (run stringify evs1 s1)"
    and unsettled: "\<forall>b'. Settle k b' \<notin> set evs2"
    and s3: "s3 = settle k b (run stringify evs2 s2)"
  shows "requestQueue s1 = requestQueue s @ [item]
    \<and> (\<forall>q' v' p' t' z h'. getRequestId stringify q' v' = k
          \<and> map_of (pendingRequests z) k = Some h'
          \<longrightarrow> queueSubgraphRequest stringify q' v' p' t' z = (h', z))
    \<and> (\<forall>n. map_of (pendingRequests (run stringify (take n evs1) s1)) k = Some h
          \<and> promises (run stringify (take n evs1) s1) ! h = Pending
          \<and> count_list (executed (run stringify (take n evs1) s1)) k
              = count_list (executed s) k)
    \<and> (\<forall>n. map_of (pendingRequests (run stringify (take n evs2) s2)) k = Some h
          \<and> promises (run stringify (take n evs2) s2) ! h = Pending
          \<and> count_list (executed (run stringify (take n evs2) s2)) k
              = Suc (count_list (executed s) k))
    \<and> count_list (executed s3) k = Suc (count_list (executed s) k)
    \<and> promises s3 ! h
         = (case snd (race b) of Inr result \<Rightarrow> Fulfilled result | Inl e \<Rightarrow> Rejected e)
    \<and> map_of (pendingRequests s3) k = None"
proof -
  let ?c = "count_list (executed s) k"
  let ?x = "run stringify evs1 s1"
  have ik: "req_id item = k" and ip: "promise item = h" by (simp_all add: item)
  have wfs: "wf s" unfolding reach by (rule wf_reachable)
  have rs: "ranged s" unfolding reach by (rule ranged_reachable)
  from first queueSubgraphRequest_new[of s stringify q v p t] fresh k
  have h: "h = length (promises s)"
    and s1: "s1 = s\<lparr> promises := promises s @ [Pending],
         requestQueue := requestQueue s @ [item],
         pendingRequests := Map_set k h (pendingRequests s) \<rparr>"
    by (simp_all add: item)
  have A: "requestQueue s1 = requestQueue s @ [item]" by (simp add: s1)
  have B: "\<forall>q' v' p' t' z h'. getRequestId stringify q' v' = k
          \<and> map_of (pendingRequests z) k = Some h'
          \<longrightarrow> queueSubgraphRequest stringify q' v' p' t' z = (h', z)"
    using queueSubgraphRequest_pending by blast
  have held1: "held k h ?c s1"
  proof -
    have 1: "wf s1" using wf_queueSubgraphRequest[OF wfs, of stringify q v p t] first by simp
    have 2: "map_of (pendingRequests s1) k = Some h" by (simp add: s1 Map_set_def update_conv')
    have 3: "h < length (promises s1)" by (simp add: s1 h)
    have 4: "promises s1 ! h = Pending" by (simp add: s1 h)
    have 5: "count_list (executed s1) k = ?c" by (simp add: s1)
    have 6: "\<forall>r\<in>set (requestQueue s1). promise r = h \<longrightarrow> req_id r = k"
    proof
      fix r assume "r \<in> set (requestQueue s1)"
      then have "r \<in> set (requestQueue s) \<or> r = item" by (auto simp: A)
      then show "promise r = h \<longrightarrow> req_id r = k"
      proof
        assume "r \<in> set (requestQueue s)"
        with rs have "promise r < length (promises s)" by (simp add: ranged_def)
        then show ?thesis by (simp add: h)
      next
        assume "r = item"
        then show ?thesis by (simp add: ik)
      qed
    qed
    have 7: "\<forall>e\<in>set (inflight s1). promise (fst e) = h \<longrightarrow> req_id (fst e) = k"
    proof
      fix e assume "e \<in> set (inflight s1)"
      then have "e \<in> set (inflight s)" by (simp add: s1)
      with rs have "promise (fst e) < length (promises s)" by (simp add: ranged_def)
      then show "promise (fst e) = h \<longrightarrow> req_id (fst e) = k" by (simp add: h)
    qed
    from 1 2 3 4 5 6 7 show ?thesis unfolding held_def by (intro conjI)
  qed
  have qx: "item \<in> set (requestQueue ?x)"
    using taken requestsToProcess_subset[of ?x] by blast
  have pl: "promise item < length (promises s1)" using held1 ip by (simp add: held_def)
  have C: "\<forall>n. map_of (pendingRequests (run stringify (take n evs1) s1)) k = Some h
          \<and> promises (run stringify (take n evs1) s1) ! h = Pending
          \<and> count_list (executed (run stringify (take n evs1) s1)) k = ?c"
  proof
    fix n
    let ?y = "run stringify (take n evs1) s1"
    have "?x = run stringify (drop n evs1) ?y"
      using run_append[of stringify "take n evs1" "drop n evs1" s1] by simp
    with qx have "item \<in> set (requestQueue (run stringify (drop n evs1) ?y))" by simp
    moreover have "promise item < length (promises ?y)"
      using pl promises_length_run[of s1 stringify "take n evs1"] by simp
    ultimately have "item \<in> set (requestQueue ?y)" by (rule queued_before_run)
    with waiting_run[OF held1 ik ip] have "held k h ?c ?y" by blast
    then show "map_of (pendingRequests ?y) k = Some h \<and> promises ?y ! h = Pending
          \<and> count_list (executed ?y) k = ?c" by (simp add: held_def)
  qed
  have heldx: "held k h ?c ?x" using waiting_run[OF held1 ik ip] qx by blast
  have held2: "held k h (Suc ?c) s2" unfolding s2
    using heldx taken ik closed fresh_memo by (rule taking_tick(1))
  have in2: "(item, now) \<in> set (inflight s2)" unfolding s2
    using heldx taken ik closed fresh_memo by (rule taking_tick(2))
  have D: "\<forall>n. map_of (pendingRequests (run stringify (take n evs2) s2)) k = Some h
          \<and> promises (run stringify (take n evs2) s2) ! h = Pending
          \<and> count_list (executed (run stringify (take n evs2) s2)) k = Suc ?c"
  proof
    fix n
    let ?y = "run stringify (take n evs2) s2"
    have "\<forall>b'. Settle k b' \<notin> set (take n evs2)"
      using unsettled set_take_subset[of n evs2] by blast
    with running_run[OF ik held2 in2, of "take n evs2" stringify] have "held k h (Suc ?c) ?y"
      by blast
    then show "map_of (pendingRequests ?y) k = Some h \<and> promises ?y ! h = Pending
          \<and> count_list (executed ?y) k = Suc ?c" by (simp add: held_def)
  qed
  let ?y = "run stringify evs2 s2"
  from running_run[OF ik held2 in2, of evs2 stringify] unsettled
  have heldy: "held k h (Suc ?c) ?y" and iny: "(item, now) \<in> set (inflight ?y)" by blast+
  note fin = running_settle[OF heldy iny ik ip, of b]
  have E: "count_list (executed s3) k = Suc ?c"
    using heldy by (simp add: s3 fin(1) held_def)
  have F: "promises s3 ! h
         = (case snd (race b) of Inr result \<Rightarrow> Fulfilled result | Inl e \<Rightarrow> Rejected e)"
    unfolding s3 by (rule fin(2))
  have G: "map_of (pendingRequests s3) k = None" unfolding s3 by (rule fin(3))
  from A B C D E F G show ?thesis by (intro conjI)
qed

text \<open>
  The instance: with all three slots busy the entry of \<open>q\<close> is not taken by the first
  tick; it is taken at time 100, after a slot was freed, and settles after a third call and
  the failure of another request.
\<close>

theorem dedup_one_execution_witness:
  "map_of (pendingRequests slots_busy) ''q_{}'' = None
   \<and> queueSubgraphRequest stringify_empty ''q'' (Obj []) 2 20 slots_busy = (3, queued_behind)
   \<and> requestsToProcess queued_behind = []
   \<and> \<lparr> req_id = ''q_{}'', promise = 3, priority = 2, timestamp = 20 \<rparr>
        \<in> set (requestsToProcess (run stringify_empty while_waiting queued_behind))
   \<and> \<not> fst (isCircuitOpen 100 (run stringify_empty while_waiting queued_behind))
   \<and> \<not> Map_has (processedRequests (run stringify_empty while_waiting queued_behind)) ''q_{}''
   \<and> getRequestId stringify_empty ''  q   '' (Obj []) = ''q_{}''
   \<and> queueSubgraphRequest stringify_empty ''  q   '' (Obj []) 1 25 queued_behind
        = (3, queued_behind)
   \<and> count_list (executed slots_busy) ''q_{}'' = 0
   \<and> count_list (executed (run stringify_empty while_waiting queued_behind)) ''q_{}'' = 0
   \<and> promises (run stringify_empty while_running
          (processQueue 100 (run stringify_empty while_waiting queued_behind))) ! 3 = Pending
   \<and> count_list (executed
        (settle ''q_{}'' (Returns 50 (Arr []))
          (run stringify_empty while_running
            (processQueue 100 (run stringify_empty while_waiting queued_behind))))) ''q_{}'' = 1
   \<and> promises
        (settle ''q_{}'' (Returns 50 (Arr []))
          (run stringify_empty while_running
            (processQueue 100 (run stringify_empty while_waiting queued_behind)))) ! 3
        = Fulfilled (Arr [])
   \<and> map_of (pendingRequests
        (settle ''q_{}'' (Returns 50 (Arr []))
          (run stringify_empty while_running
            (processQueue 100 (run stringify_empty while_waiting queued_behind)))))
        ''q_{}'' = None"
proof -
  let ?item = "\<lparr> req_id = ''q_{}'', promise = 3, priority = 2, timestamp = 20 \<rparr>"
  let ?x = "run stringify_empty while_waiting queued_behind"
  let ?y = "run stringify_empty while_running (processQueue 100 ?x)"
  have k: "''q_{}'' = getRequestId stringify_empty ''q'' (Obj [])" by code_simp
  have k': "getRequestId stringify_empty ''  q   '' (Obj []) = ''q_{}''" by code_simp
  have fresh: "map_of (pendingRequests slots_busy) ''q_{}'' = None" by code_simp
  have first: "queueSubgraphRequest stringify_empty ''q'' (Obj []) 2 20 slots_busy
      = (3, queued_behind)" by code_simp
  have behind: "requestsToProcess queued_behind = []" by code_simp
  have taken: "?item \<in> set (requestsToProcess ?x)" by code_simp
  have closed: "\<not> fst (isCircuitOpen 100 ?x)" by code_simp
  have memo: "\<not> Map_has (processedRequests ?x) ''q_{}''" by code_simp
  have c0: "count_list (executed slots_busy) ''q_{}'' = 0" by code_simp
  have un: "\<forall>b'. Settle ''q_{}'' b' \<notin> set while_running"
    by (simp add: while_running_def)
  have r: "snd (race (Returns 50 (Arr []))) = Inr (Arr [])"
    by (simp add: race_def REQUEST_TIMEOUT_def)
  have l1: "take 4 while_waiting = while_waiting" "take 0 while_waiting = []"
    and l2: "take 3 while_running = while_running"
    by (simp_all add: while_waiting_def while_running_def)
  note t = dedup_one_execution [OF slots_busy_def k fresh first refl taken closed memo refl
      un refl, of "Returns 50 (Arr [])"]
  from t have dedup: "\<forall>q' v' p' t' z h'. getRequestId stringify_empty q' v' = ''q_{}''
          \<and> map_of (pendingRequests z) ''q_{}'' = Some h'
          \<longrightarrow> queueSubgraphRequest stringify_empty q' v' p' t' z = (h', z)" by blast
  from t have w: "\<forall>n. map_of (pendingRequests
            (run stringify_empty (take n while_waiting) queued_behind)) ''q_{}'' = Some 3
          \<and> promises (run stringify_empty (take n while_waiting) queued_behind) ! 3 = Pending
          \<and> count_list (executed (run stringify_empty (take n while_waiting) queued_behind))
               ''q_{}'' = count_list (executed slots_busy) ''q_{}''" by blast
  from t have f: "\<forall>n. map_of (pendingRequests
            (run stringify_empty (take n while_running) (processQueue 100 ?x))) ''q_{}'' = Some 3
          \<and> promises (run stringify_empty (take n while_running) (processQueue 100 ?x)) ! 3
              = Pending
          \<and> count_list (executed
               (run stringify_empty (take n while_running) (processQueue 100 ?x))) ''q_{}''
              = Suc (count_list (executed slots_busy) ''q_{}'')" by blast
  from w[rule_format, of 0] have "map_of (pendingRequests queued_behind) ''q_{}'' = Some 3"
    by (simp add: l1 run_Nil)
  with dedup k' have 1: "queueSubgraphRequest stringify_empty ''  q   '' (Obj []) 1 25
      queued_behind = (3, queued_behind)" by blast
  from w[rule_format, of 4] have 2: "count_list (executed ?x) ''q_{}'' = 0"
    by (simp add: l1 c0)
  from f[rule_format, of 3] have 3: "promises ?y ! 3 = Pending" by (simp add: l2)
  from t have 4: "count_list (executed (settle ''q_{}'' (Returns 50 (Arr [])) ?y)) ''q_{}'' = 1"
    by (simp add: c0)
  from t have 5: "promises (settle ''q_{}'' (Returns 50 (Arr [])) ?y) ! 3 = Fulfilled (Arr [])"
    by (simp add: r)
  from t have 6: "map_of (pendingRequests (settle ''q_{}'' (Returns 50 (Arr [])) ?y)) ''q_{}''
      = None" by blast
  from fresh first behind taken closed memo k' 1 c0 2 3 4 5 6 show ?thesis by (intro conjI)
qed


end
